theory Spec2Isabelle
  imports Complex_Main "HOL-Library.Multiset" "HOL-Library.Sublist"
begin

section \<open>Data model\<close>

text \<open>
  The structs of the program. \<open>MovieResponse\<close> and \<open>SearchResults\<close> are the two JSON
  shapes decoded from the provider; the fields are those of the fullest variant of the
  source (the earlier variant declares a subset of them).
\<close>

record MovieResponse =
  Title :: string
  Year :: string
  Plot :: string
  Director :: string
  Genre :: string
  Actors :: string
  Country :: string
  Awards :: string
  Season :: string
  Episode :: string
  Released :: string
  IMDBID :: string
  IMDBRating :: string
  Ratings :: "(string \<times> string) list"
  Response :: string
  Error :: string

record SearchItem =
  Item_Title :: string
  Item_Year :: string
  Item_IMDBID :: string
  Item_Type :: string

record SearchResults =
  Search :: "SearchItem list"
  Search_Response :: string
  Search_Error :: string

text \<open>
  The handlers build their answers as \<open>map[string]interface{}\<close> (\<open>gin.H\<close>) values with
  a fixed set of string-valued keys. A key that a handler does not set is \<open>None\<close>.
\<close>

record H =
  H_Title :: string
  H_Year :: string
  H_Genre :: string
  H_Country :: "string option"
  H_Awards :: "string option"
  H_imdbRating :: string
  H_imdbID :: string
  H_Why :: "string option"

record Recommendations =
  favorite_movie :: string
  by_genre :: "H list"
  by_director :: "H list"
  by_actor :: "H list"

text \<open>What a handler writes with \<open>c.JSON\<close>: the status and the body.\<close>

datatype 'a response = BadRequest string | NotFound string | OK 'a

text \<open>A Go \<open>error\<close>: the transport or the decoder failed, or the provider said no.\<close>

datatype error = TransportError | ProviderError string

section \<open>The Go library\<close>

text \<open>
  A \<open>float64\<close> as far as the program looks at it: it only compares two of them with
  \<open>>\<close>. Every comparison with \<open>NaN\<close> is false.
\<close>

datatype float64 = NaN | NegInf | Fin real | PosInf

fun float_gt :: "float64 \<Rightarrow> float64 \<Rightarrow> bool" where
  "float_gt NaN y = False"
| "float_gt x NaN = False"
| "float_gt NegInf y = False"
| "float_gt (Fin a) NegInf = True"
| "float_gt (Fin a) (Fin b) = (b < a)"
| "float_gt (Fin a) PosInf = False"
| "float_gt PosInf PosInf = False"
| "float_gt PosInf y = True"

fun float_ge :: "float64 \<Rightarrow> float64 \<Rightarrow> bool" where
  "float_ge NaN y = False"
| "float_ge x NaN = False"
| "float_ge x y = (\<not> float_gt y x)"

text \<open>
  The library functions whose code is not part of the program are parameters:
  \<open>strings.TrimSpace\<close>, \<open>strings.EqualFold\<close>, \<open>strconv.ParseFloat\<close> (the value and
  whether \<open>err\<close> is non-nil) and \<open>sort.Slice\<close> (as a function of the comparison and
  the slice).
\<close>

record golib =
  TrimSpace :: "string \<Rightarrow> string"
  EqualFold :: "string \<Rightarrow> string \<Rightarrow> bool"
  ParseFloat :: "string \<Rightarrow> float64 \<times> bool"
  sortSlice :: "(H \<Rightarrow> H \<Rightarrow> bool) \<Rightarrow> H list \<Rightarrow> H list"

text \<open>
  What Go's documentation promises of \<open>sort.Slice\<close>: the slice is rearranged (never
  more), and it ends sorted when \<open>less\<close> is a transitive ordering on its elements. The
  documentation adds that the sort is not guaranteed to be stable.
\<close>

definition transitive_ordering :: "'a set \<Rightarrow> ('a \<Rightarrow> 'a \<Rightarrow> bool) \<Rightarrow> bool" where
  "transitive_ordering S lt \<longleftrightarrow>
     (\<forall>a\<in>S. \<not> lt a a) \<and>
     (\<forall>a\<in>S. \<forall>b\<in>S. \<forall>c\<in>S. lt a b \<longrightarrow> lt b c \<longrightarrow> lt a c) \<and>
     (\<forall>a\<in>S. \<forall>b\<in>S. \<forall>c\<in>S. \<not> lt a b \<longrightarrow> \<not> lt b c \<longrightarrow> \<not> lt a c)"

definition sort_permutes :: "(('a \<Rightarrow> 'a \<Rightarrow> bool) \<Rightarrow> 'a list \<Rightarrow> 'a list) \<Rightarrow> bool" where
  "sort_permutes srt \<longleftrightarrow> (\<forall>lt xs. mset (srt lt xs) = mset xs)"

definition sort_orders :: "(('a \<Rightarrow> 'a \<Rightarrow> bool) \<Rightarrow> 'a list \<Rightarrow> 'a list) \<Rightarrow> bool" where
  "sort_orders srt \<longleftrightarrow>
     (\<forall>lt xs. transitive_ordering (set xs) lt \<longrightarrow>
        sorted_wrt (\<lambda>a b. \<not> lt b a) (srt lt xs))"

text \<open>
  How \<open>sort.Slice\<close> sorts a short slice: by insertion. Element \<open>i\<close> moves left while
  \<open>less\<close> puts it before its left neighbour. \<open>insertBack\<close> works on the sorted prefix
  written back to front. The library does this for a slice of at most \<open>n\<close> elements, where
  \<open>n\<close> is 12 from Go 1.19 on (\<open>maxInsertion\<close> of \<open>pdqsort_func\<close>) and 6 before (the
  quicksort of the older library sends 7 to 12 elements through a Shell pass first).
\<close>

fun insertBack :: "('a \<Rightarrow> 'a \<Rightarrow> bool) \<Rightarrow> 'a \<Rightarrow> 'a list \<Rightarrow> 'a list" where
  "insertBack lt x [] = [x]"
| "insertBack lt x (y # ys) = (if lt x y then y # insertBack lt x ys else x # y # ys)"

definition insertionSort :: "('a \<Rightarrow> 'a \<Rightarrow> bool) \<Rightarrow> 'a list \<Rightarrow> 'a list" where
  "insertionSort lt xs = rev (foldl (\<lambda>p x. insertBack lt x p) [] xs)"

definition sorts_short_by_insertion ::
  "nat \<Rightarrow> (('a \<Rightarrow> 'a \<Rightarrow> bool) \<Rightarrow> 'a list \<Rightarrow> 'a list) \<Rightarrow> bool" where
  "sorts_short_by_insertion n srt \<longleftrightarrow>
     (\<forall>lt xs. length xs \<le> n \<longrightarrow> srt lt xs = insertionSort lt xs)"

text \<open>\<open>strings.Split(s, sep)\<close> for a separator of one byte.\<close>

fun Split :: "string \<Rightarrow> char \<Rightarrow> string list" where
  "Split [] sep = [] # []"
| "Split (c # cs) sep =
     (if c = sep then [] # Split cs sep
      else (case Split cs sep of
              [] \<Rightarrow> [c] # []
            | w # ws \<Rightarrow> (c # w) # ws))"

text \<open>\<open>strconv.Itoa\<close> on a number that is not negative.\<close>

definition digit :: "nat \<Rightarrow> char" where
  "digit d = char_of (48 + d)"

fun Itoa :: "nat \<Rightarrow> string" where
  "Itoa n = (if n < 10 then [digit n] else Itoa (n div 10) @ [digit (n mod 10)])"

section \<open>The provider\<close>

text \<open>
  A request to the provider is the parameter map of \<open>fetchFromOMDb\<close> (an association
  list, in the order of the map literal) with the type of the value it is decoded into.
  The provider is outside the program: its reply may depend on the request and on all the
  requests made before. \<open>None\<close> is a failed \<open>http.Get\<close> or a failed decoding.
\<close>

type_synonym params = "(string \<times> string) list"

datatype request = MovieQuery params | SearchQuery params

type_synonym history = "request list"

record omdb =
  movie_reply :: "history \<Rightarrow> params \<Rightarrow> MovieResponse option"
  search_reply :: "history \<Rightarrow> params \<Rightarrow> SearchResults option"

text \<open>
  \<open>fetchFromOMDb\<close>, one definition for each branch of its type switch, and the three
  functions built on it. (The earlier variant of the source has \<open>fetchMovie\<close> and
  \<open>fetchSearchResults\<close> do the request, the decoding and the test of \<open>Response\<close>
  themselves, and its search request names no page.)
\<close>

definition fetchFromOMDb_Movie ::
  "omdb \<Rightarrow> params \<Rightarrow> history \<Rightarrow> (error + MovieResponse) \<times> history"
where
  "fetchFromOMDb_Movie W ps h =
     (case movie_reply W h ps of
        None \<Rightarrow> (Inl TransportError, h @ [MovieQuery ps])
      | Some v \<Rightarrow>
          if Response v = ''False'' then (Inl (ProviderError (Error v)), h @ [MovieQuery ps])
          else (Inr v, h @ [MovieQuery ps]))"

definition fetchFromOMDb_Search ::
  "omdb \<Rightarrow> params \<Rightarrow> history \<Rightarrow> (error + SearchResults) \<times> history"
where
  "fetchFromOMDb_Search W ps h =
     (case search_reply W h ps of
        None \<Rightarrow> (Inl TransportError, h @ [SearchQuery ps])
      | Some v \<Rightarrow>
          if Search_Response v = ''False''
          then (Inl (ProviderError (Search_Error v)), h @ [SearchQuery ps])
          else (Inr v, h @ [SearchQuery ps]))"

definition fetchMovie ::
  "omdb \<Rightarrow> params \<Rightarrow> history \<Rightarrow> (error + MovieResponse) \<times> history"
where
  "fetchMovie W ps h = fetchFromOMDb_Movie W ps h"

definition pageParams :: "string \<Rightarrow> nat \<Rightarrow> params" where
  "pageParams query page = [(''s'', query), (''type'', ''movie''), (''page'', Itoa page)]"

definition fetchSearchPage ::
  "omdb \<Rightarrow> string \<Rightarrow> nat \<Rightarrow> history \<Rightarrow> (error + SearchResults) \<times> history"
where
  "fetchSearchPage W query page h = fetchFromOMDb_Search W (pageParams query page) h"

definition fetchSearchResults ::
  "omdb \<Rightarrow> string \<Rightarrow> history \<Rightarrow> (error + SearchResults) \<times> history"
where
  "fetchSearchResults W query h = fetchSearchPage W query 1 h"

section \<open>Ranking\<close>

text \<open>
  The \<open>less\<close> closure given to \<open>sort.Slice\<close> by both handlers: it parses the two
  ratings, drops the errors and compares the values.
\<close>

definition score :: "golib \<Rightarrow> H \<Rightarrow> float64" where
  "score L e = fst (ParseFloat L (H_imdbRating e))"

definition ratingLess :: "golib \<Rightarrow> H \<Rightarrow> H \<Rightarrow> bool" where
  "ratingLess L a b = float_gt (score L a) (score L b)"

section \<open>Category search: getMoviesByGenre\<close>

text \<open>
  The handler as the earlier variant of the source has it: it tests \<open>movie.Response\<close>
  once more after \<open>fetchMovie\<close>, and an entry has the five keys \<open>Title\<close>, \<open>Year\<close>,
  \<open>Genre\<close>, \<open>imdbRating\<close> and \<open>imdbID\<close>. The later variant has the same loops without
  that test (which \<open>fetchMovie\<close> has made already) and adds the keys \<open>Country\<close> and
  \<open>Awards\<close>.
\<close>

definition searchSeeds :: "string list" where
  "searchSeeds = [''the'', ''a'', ''love'', ''man'', ''girl'', ''night'', ''day'']"

definition genreEntry :: "MovieResponse \<Rightarrow> H" where
  "genreEntry movie =
     \<lparr> H_Title = Title movie, H_Year = Year movie, H_Genre = Genre movie,
       H_Country = None, H_Awards = None,
       H_imdbRating = IMDBRating movie, H_imdbID = IMDBID movie, H_Why = None \<rparr>"

text \<open>The loop over the split genres: the first tag that matches appends and breaks.\<close>

fun genresLoop :: "golib \<Rightarrow> string \<Rightarrow> MovieResponse \<Rightarrow> string list \<Rightarrow> H list \<Rightarrow> H list" where
  "genresLoop L genre movie [] matchingMovies = matchingMovies"
| "genresLoop L genre movie (g # gs) matchingMovies =
     (if EqualFold L (TrimSpace L g) genre then matchingMovies @ [genreEntry movie]
      else genresLoop L genre movie gs matchingMovies)"

text \<open>The loop over the items of one search page.\<close>

fun itemsLoop ::
  "golib \<Rightarrow> omdb \<Rightarrow> string \<Rightarrow> SearchItem list \<Rightarrow> H list \<Rightarrow> history \<Rightarrow> H list \<times> history"
where
  "itemsLoop L W genre [] matchingMovies h = (matchingMovies, h)"
| "itemsLoop L W genre (item # items) matchingMovies h =
     (case fetchMovie W [(''i'', Item_IMDBID item)] h of
        (Inl err, h') \<Rightarrow> itemsLoop L W genre items matchingMovies h'
      | (Inr movie, h') \<Rightarrow>
          if Response movie = ''False'' \<or> IMDBRating movie = ''N/A''
          then itemsLoop L W genre items matchingMovies h'
          else itemsLoop L W genre items
                 (genresLoop L genre movie (Split (Genre movie) CHR '','') matchingMovies) h')"

text \<open>The loop over the seed words.\<close>

fun seedsLoop ::
  "golib \<Rightarrow> omdb \<Rightarrow> string \<Rightarrow> string list \<Rightarrow> H list \<Rightarrow> history \<Rightarrow> H list \<times> history"
where
  "seedsLoop L W genre [] matchingMovies h = (matchingMovies, h)"
| "seedsLoop L W genre (seed # seeds) matchingMovies h =
     (case fetchSearchResults W seed h of
        (Inl err, h') \<Rightarrow> seedsLoop L W genre seeds matchingMovies h'
      | (Inr results, h') \<Rightarrow>
          (case itemsLoop L W genre (Search results) matchingMovies h' of
             (matchingMovies', h'') \<Rightarrow> seedsLoop L W genre seeds matchingMovies' h''))"

definition getMoviesByGenre ::
  "golib \<Rightarrow> omdb \<Rightarrow> string \<Rightarrow> history \<Rightarrow> H list response \<times> history"
where
  "getMoviesByGenre L W genre h =
     (if genre = [] then (BadRequest ''Please provide a genre using ?genre=GenreName'', h)
      else
        (case seedsLoop L W genre searchSeeds [] h of
           (matchingMovies, h') \<Rightarrow>
             let sorted = sortSlice L (ratingLess L) matchingMovies
             in (OK (if length sorted > 15 then take 15 sorted else sorted), h')))"

section \<open>Relation search: getRecommendations\<close>

definition recEntry :: "string \<Rightarrow> MovieResponse \<Rightarrow> H" where
  "recEntry level movie =
     \<lparr> H_Title = Title movie, H_Year = Year movie, H_Genre = Genre movie,
       H_Country = Some (Country movie), H_Awards = Some (Awards movie),
       H_imdbRating = IMDBRating movie, H_imdbID = IMDBID movie, H_Why = Some level \<rparr>"

text \<open>
  The closure \<open>collect\<close> reads and writes the map \<open>seen\<close> of the enclosing handler; the
  model passes it in and returns it. Innermost, the loop over the items of one page,
  which breaks as soon as \<open>limit\<close> results are there.
\<close>

fun collectItems ::
  "omdb \<Rightarrow> string \<Rightarrow> nat \<Rightarrow> SearchItem list \<Rightarrow> H list \<Rightarrow> string set \<Rightarrow> history
     \<Rightarrow> H list \<times> string set \<times> history"
where
  "collectItems W level limit [] results seen h = (results, seen, h)"
| "collectItems W level limit (s # ss) results seen h =
     (if Item_IMDBID s \<in> seen then collectItems W level limit ss results seen h
      else
        (case fetchMovie W [(''i'', Item_IMDBID s)] h of
           (Inl err, h') \<Rightarrow> collectItems W level limit ss results seen h'
         | (Inr movie, h') \<Rightarrow>
             if IMDBRating movie = ''N/A'' then collectItems W level limit ss results seen h'
             else
               let seen' = insert (Item_IMDBID s) seen;
                   results' = results @ [recEntry level movie]
               in if length results' \<ge> limit then (results', seen', h')
                  else collectItems W level limit ss results' seen' h'))"

text \<open>
  The loop \<open>for page := 1; page <= 3 && len(results) < limit; page++\<close>. A failed fetch
  does \<open>continue\<close>, which goes on with the next page.
\<close>

function collectPages ::
  "omdb \<Rightarrow> string \<Rightarrow> nat \<Rightarrow> string \<Rightarrow> nat \<Rightarrow> H list \<Rightarrow> string set \<Rightarrow> history
     \<Rightarrow> H list \<times> string set \<times> history"
where
  "collectPages W level limit kw page results seen h =
     (if page \<le> 3 \<and> length results < limit then
        (case fetchSearchPage W kw page h of
           (Inl err, h') \<Rightarrow> collectPages W level limit kw (page + 1) results seen h'
         | (Inr search, h') \<Rightarrow>
             (case collectItems W level limit (Search search) results seen h' of
                (results', seen', h'') \<Rightarrow>
                  collectPages W level limit kw (page + 1) results' seen' h''))
      else (results, seen, h))"
  by pat_completeness auto
termination
  by (relation "measure (\<lambda>(W, level, limit, kw, page, results, seen, h). 4 - page)") auto

text \<open>The loop over the keywords of one axis.\<close>

fun collectKeywords ::
  "golib \<Rightarrow> omdb \<Rightarrow> string \<Rightarrow> nat \<Rightarrow> string list \<Rightarrow> H list \<Rightarrow> string set \<Rightarrow> history
     \<Rightarrow> H list \<times> string set \<times> history"
where
  "collectKeywords L W level limit [] results seen h = (results, seen, h)"
| "collectKeywords L W level limit (kw0 # kws) results seen h =
     (let kw = TrimSpace L kw0 in
      if kw = [] \<or> kw = ''N/A'' then collectKeywords L W level limit kws results seen h
      else
        (case collectPages W level limit kw 1 results seen h of
           (results', seen', h') \<Rightarrow>
             if length results' \<ge> limit then (results', seen', h')
             else collectKeywords L W level limit kws results' seen' h'))"

definition collect ::
  "golib \<Rightarrow> omdb \<Rightarrow> string \<Rightarrow> string list \<Rightarrow> nat \<Rightarrow> string set \<Rightarrow> history
     \<Rightarrow> H list \<times> string set \<times> history"
where
  "collect L W level keywords limit seen h =
     (case collectKeywords L W level limit keywords [] seen h of
        (results, seen', h') \<Rightarrow> (sortSlice L (ratingLess L) results, seen', h'))"

definition getRecommendations ::
  "golib \<Rightarrow> omdb \<Rightarrow> string \<Rightarrow> history \<Rightarrow> Recommendations response \<times> history"
where
  "getRecommendations L W fav h =
     (if fav = [] then (BadRequest ''Please provide ?favorite_movie=MovieTitle'', h)
      else
        (case fetchMovie W [(''t'', fav)] h of
           (Inl err, h0) \<Rightarrow> (NotFound ''Favorite movie not found'', h0)
         | (Inr favMovie, h0) \<Rightarrow>
             let genres = Split (Genre favMovie) CHR '','';
                 directors = Split (Director favMovie) CHR '','';
                 actors = Split (Actors favMovie) CHR '','';
                 seen = {IMDBID favMovie}
             in (case collect L W ''Genre'' genres 5 seen h0 of
                   (genreRecs, seen1, h1) \<Rightarrow>
                 (case collect L W ''Director'' directors 5 seen1 h1 of
                   (directorRecs, seen2, h2) \<Rightarrow>
                 (case collect L W ''Actor'' actors 5 seen2 h2 of
                   (actorRecs, seen3, h3) \<Rightarrow>
                     (OK \<lparr> favorite_movie = Title favMovie,
                           by_genre = genreRecs,
                           by_director = directorRecs,
                           by_actor = actorRecs \<rparr>, h3))))))"

section \<open>Instances of the library and of the provider\<close>

text \<open>
  Concrete library functions for the examples: \<open>strings.TrimSpace\<close> and
  \<open>strings.EqualFold\<close> as they act on ASCII text, \<open>strconv.ParseFloat\<close> on the
  handful of strings the examples use (any other string is a syntax error, value 0),
  and the insertion sort for \<open>sort.Slice\<close>.
\<close>

definition isSpace :: "char \<Rightarrow> bool" where
  "isSpace c \<longleftrightarrow> c \<in> {CHR '' '', CHR 0x09, CHR 0x0A, CHR 0x0B, CHR 0x0C, CHR 0x0D}"

definition ascii_TrimSpace :: "string \<Rightarrow> string" where
  "ascii_TrimSpace s = rev (dropWhile isSpace (rev (dropWhile isSpace s)))"

definition ascii_lower :: "char \<Rightarrow> char" where
  "ascii_lower c =
     (let n = (of_char c :: nat) in if 65 \<le> n \<and> n \<le> 90 then char_of (n + 32) else c)"

definition ascii_EqualFold :: "string \<Rightarrow> string \<Rightarrow> bool" where
  "ascii_EqualFold s t \<longleftrightarrow> map ascii_lower s = map ascii_lower t"

definition table_ParseFloat :: "string \<Rightarrow> float64 \<times> bool" where
  "table_ParseFloat s =
     (if s = ''9.2'' then (Fin 9.2, False)
      else if s = ''8.3'' then (Fin 8.3, False)
      else if s = ''6.9'' then (Fin 6.9, False)
      else if s = ''NaN'' then (NaN, False)
      else (Fin 0, True))"

definition go_lib :: golib where
  "go_lib = \<lparr> TrimSpace = ascii_TrimSpace, EqualFold = ascii_EqualFold,
              ParseFloat = table_ParseFloat, sortSlice = insertionSort \<rparr>"

text \<open>
  A provider for the examples. It answers by request alone: a movie by its identifier
  or by its title, and one page for some of the search words.
\<close>

definition mkMovie ::
  "string \<Rightarrow> string \<Rightarrow> string \<Rightarrow> string \<Rightarrow> string \<Rightarrow> string \<Rightarrow> MovieResponse" where
  "mkMovie ident title genre director actors rating =
     \<lparr> Title = title, Year = ''1995'', Plot = [], Director = director, Genre = genre,
       Actors = actors, Country = ''USA'', Awards = ''N/A'', Season = [], Episode = [],
       Released = [], IMDBID = ident, IMDBRating = rating, Ratings = [],
       Response = ''True'', Error = [] \<rparr>"

definition mkItem :: "string \<Rightarrow> SearchItem" where
  "mkItem ident = \<lparr> Item_Title = [], Item_Year = [], Item_IMDBID = ident, Item_Type = ''movie'' \<rparr>"

definition mkPage :: "string list \<Rightarrow> SearchResults" where
  "mkPage idents = \<lparr> Search = map mkItem idents, Search_Response = ''True'', Search_Error = [] \<rparr>"

definition demo_movies :: "string \<Rightarrow> MovieResponse option" where
  "demo_movies ident =
     (if ident = ''tt0'' then Some (mkMovie ''tt0'' ''Heat'' ''Crime, Drama'' ''Mann'' ''N/A'' ''8.3'')
      else if ident = ''tt1'' then Some (mkMovie ''tt1'' ''Casino'' ''Crime, Drama'' ''Scorsese'' ''N/A'' ''8.3'')
      else if ident = ''tt2'' then Some (mkMovie ''tt2'' ''Ali'' ''Drama'' ''Mann'' ''N/A'' ''6.9'')
      else if ident = ''tt3'' then Some (mkMovie ''tt3'' ''Ronin'' ''Action, Crime'' ''N/A'' ''N/A'' ''N/A'')
      else if ident = ''tt4'' then Some (mkMovie ''tt4'' ''Seven'' ''crime , Mystery'' ''Fincher'' ''N/A'' ''9.2'')
      else if ident = ''tt5'' then Some (mkMovie ''tt5'' ''Shane'' ''Western'' ''N/A'' ''N/A'' ''unrated'')
      else if ident = ''tt6'' then Some (mkMovie ''tt6'' ''Alien'' ''Horror'' ''N/A'' ''N/A'' ''6.9'')
      else if ident = ''tt7'' then Some (mkMovie ''tt7'' ''Jaws'' ''Horror'' ''N/A'' ''N/A'' ''NaN'')
      else if ident = ''tt8'' then Some (mkMovie ''tt8'' ''Psycho'' ''Horror, Mystery'' ''N/A'' ''N/A'' ''9.2'')
      else None)"

definition demo_pages :: "params \<Rightarrow> SearchResults option" where
  "demo_pages ps =
     (if ps = pageParams ''the'' 1 then Some (mkPage [''tt1'', ''tt3'', ''tt2''])
      else if ps = pageParams ''love'' 1 then Some (mkPage [''tt6'', ''tt7'', ''tt8''])
      else if ps = pageParams ''night'' 1 then Some (mkPage [''tt4'', ''tt9'', ''tt1''])
      else if ps = pageParams ''day'' 1 then Some (mkPage [''tt5''])
      else if ps = pageParams ''Crime'' 1 then Some (mkPage [''tt0'', ''tt1'', ''tt3''])
      else if ps = pageParams ''Drama'' 2 then Some (mkPage [''tt1'', ''tt2''])
      else if ps = pageParams ''Mann'' 1 then Some (mkPage [''tt0'', ''tt2'', ''tt4''])
      else None)"

definition demo :: omdb where
  "demo = \<lparr> movie_reply = (\<lambda>h ps.
               case ps of
                 [(k, v)] \<Rightarrow> if k = ''i'' then demo_movies v
                             else if k = ''t'' \<and> v = ''Heat'' then demo_movies ''tt0''
                             else None
               | _ \<Rightarrow> None),
            search_reply = (\<lambda>h ps. demo_pages ps) \<rparr>"

text \<open>
  What the handlers answer over this provider (each is checked below): the category
  searches for \<open>crime\<close>, \<open>horror\<close>, \<open>western\<close> and \<open>mystery\<close>, and the relation
  search for \<open>Heat\<close> with the requests it makes.
\<close>

definition genreRow :: "string \<Rightarrow> string \<Rightarrow> string \<Rightarrow> string \<Rightarrow> H" where
  "genreRow ident title genre rating =
     \<lparr> H_Title = title, H_Year = ''1995'', H_Genre = genre, H_Country = None,
       H_Awards = None, H_imdbRating = rating, H_imdbID = ident, H_Why = None \<rparr>"

definition recRow :: "string \<Rightarrow> string \<Rightarrow> string \<Rightarrow> string \<Rightarrow> string \<Rightarrow> H" where
  "recRow ident title genre rating level =
     \<lparr> H_Title = title, H_Year = ''1995'', H_Genre = genre, H_Country = Some ''USA'',
       H_Awards = Some ''N/A'', H_imdbRating = rating, H_imdbID = ident,
       H_Why = Some level \<rparr>"

definition demo_crime :: "H list" where
  "demo_crime =
     [genreRow ''tt4'' ''Seven'' ''crime , Mystery'' ''9.2'',
      genreRow ''tt1'' ''Casino'' ''Crime, Drama'' ''8.3'',
      genreRow ''tt1'' ''Casino'' ''Crime, Drama'' ''8.3'']"

definition demo_horror :: "H list" where
  "demo_horror =
     [genreRow ''tt6'' ''Alien'' ''Horror'' ''6.9'',
      genreRow ''tt7'' ''Jaws'' ''Horror'' ''NaN'',
      genreRow ''tt8'' ''Psycho'' ''Horror, Mystery'' ''9.2'']"

definition demo_western :: "H list" where
  "demo_western = [genreRow ''tt5'' ''Shane'' ''Western'' ''unrated'']"

definition demo_mystery :: "H list" where
  "demo_mystery =
     [genreRow ''tt8'' ''Psycho'' ''Horror, Mystery'' ''9.2'',
      genreRow ''tt4'' ''Seven'' ''crime , Mystery'' ''9.2'']"

definition demo_heat :: Recommendations where
  "demo_heat =
     \<lparr> favorite_movie = ''Heat'',
       by_genre =
         [recRow ''tt1'' ''Casino'' ''Crime, Drama'' ''8.3'' ''Genre'',
          recRow ''tt2'' ''Ali'' ''Drama'' ''6.9'' ''Genre''],
       by_director = [recRow ''tt4'' ''Seven'' ''crime , Mystery'' ''9.2'' ''Director''],
       by_actor = [] \<rparr>"

definition demo_heat_requests :: history where
  "demo_heat_requests =
     [MovieQuery [(''t'', ''Heat'')],
      SearchQuery (pageParams ''Crime'' 1),
      MovieQuery [(''i'', ''tt1'')], MovieQuery [(''i'', ''tt3'')],
      SearchQuery (pageParams ''Crime'' 2),
      SearchQuery (pageParams ''Crime'' 3),
      SearchQuery (pageParams ''Drama'' 1),
      SearchQuery (pageParams ''Drama'' 2),
      MovieQuery [(''i'', ''tt2'')],
      SearchQuery (pageParams ''Drama'' 3),
      SearchQuery (pageParams ''Mann'' 1),
      MovieQuery [(''i'', ''tt4'')],
      SearchQuery (pageParams ''Mann'' 2),
      SearchQuery (pageParams ''Mann'' 3)]"

definition demo_crime_requests :: history where
  "demo_crime_requests =
     [SearchQuery (pageParams ''the'' 1),
      MovieQuery [(''i'', ''tt1'')], MovieQuery [(''i'', ''tt3'')], MovieQuery [(''i'', ''tt2'')],
      SearchQuery (pageParams ''a'' 1),
      SearchQuery (pageParams ''love'' 1),
      MovieQuery [(''i'', ''tt6'')], MovieQuery [(''i'', ''tt7'')], MovieQuery [(''i'', ''tt8'')],
      SearchQuery (pageParams ''man'' 1),
      SearchQuery (pageParams ''girl'' 1),
      SearchQuery (pageParams ''night'' 1),
      MovieQuery [(''i'', ''tt4'')], MovieQuery [(''i'', ''tt9'')], MovieQuery [(''i'', ''tt1'')],
      SearchQuery (pageParams ''day'' 1),
      MovieQuery [(''i'', ''tt5'')]]"

section \<open>Notions used in the statements\<close>

text \<open>
  A provider is consistent in its identifiers when a movie fetched by identifier carries
  that identifier. \<open>extends_dedup\<close> says how one loop of \<open>collect\<close> moves the pair of
  \<open>results\<close> and \<open>seen\<close>: it appends entries with fresh, pairwise different
  identifiers and records exactly those.
\<close>

definition extends_dedup :: "H list \<Rightarrow> string set \<Rightarrow> H list \<Rightarrow> string set \<Rightarrow> bool" where
  "extends_dedup results seen results' seen' \<longleftrightarrow>
     (\<exists>new. results' = results @ new \<and> distinct (map H_imdbID new) \<and>
        H_imdbID ` set new \<inter> seen = {} \<and> seen' = seen \<union> H_imdbID ` set new)"

definition id_consistent :: "omdb \<Rightarrow> bool" where
  "id_consistent W \<longleftrightarrow>
     (\<forall>h i m. movie_reply W h [(''i'', i)] = Some m \<longrightarrow> IMDBID m = i)"

text \<open>
  The ranking statements: every rating of a list parses to a number (anything but
  \<open>NaN\<close>; a rating that fails to parse counts with the value \<open>strconv.ParseFloat\<close>
  returns); a list is in descending order of the scores; and nothing left out of a
  returned list has a strictly higher score than an entry of it.
\<close>

definition numeric_scores :: "golib \<Rightarrow> H list \<Rightarrow> bool" where
  "numeric_scores L xs = list_all (\<lambda>e. score L e \<noteq> NaN) xs"

definition ranked_desc :: "golib \<Rightarrow> H list \<Rightarrow> bool" where
  "ranked_desc L xs = sorted_wrt (\<lambda>a b. float_ge (score L a) (score L b)) xs"

definition outranked :: "golib \<Rightarrow> H list \<Rightarrow> H list \<Rightarrow> bool" where
  "outranked L accepted returned \<longleftrightarrow>
     (\<forall>x\<in>#mset accepted - mset returned. \<forall>r\<in>set returned.
        \<not> float_gt (score L x) (score L r))"

text \<open>
  A returned list keeps the ties of the accepted candidates when, for every score that
  occurs in it, its entries of that score are the first accepted candidates of that score,
  in the order in which they were found.
\<close>

definition keeps_ties :: "golib \<Rightarrow> H list \<Rightarrow> H list \<Rightarrow> bool" where
  "keeps_ties L accepted returned =
     list_all (\<lambda>k. prefix (filter (\<lambda>e. score L e = k) returned)
                          (filter (\<lambda>e. score L e = k) accepted))
       (map (score L) returned)"

text \<open>The matches of the category search for \<open>crime\<close> in the order they are found.\<close>

definition demo_crime_found :: "H list" where
  "demo_crime_found =
     [genreRow ''tt1'' ''Casino'' ''Crime, Drama'' ''8.3'',
      genreRow ''tt4'' ''Seven'' ''crime , Mystery'' ''9.2'',
      genreRow ''tt1'' ''Casino'' ''Crime, Drama'' ''8.3'']"


text \<open>
  \<open>patient W\<close> is the provider \<open>W\<close> with every failed search page replaced by a page
  without items.
\<close>

definition emptyPage :: SearchResults where
  "emptyPage = \<lparr> Search = [], Search_Response = ''True'', Search_Error = [] \<rparr>"

definition patient :: "omdb \<Rightarrow> omdb" where
  "patient W = W \<lparr> search_reply := (\<lambda>h ps.
       case search_reply W h ps of
         None \<Rightarrow> Some emptyPage
       | Some r \<Rightarrow> if Search_Response r = ''False'' then Some emptyPage else Some r) \<rparr>"

text \<open>
  A provider is a function of the request when its replies do not depend on the requests
  made before. \<open>outcome\<close> is what a loop of \<open>collect\<close> leaves apart from the history.
\<close>

definition history_free :: "omdb \<Rightarrow> bool" where
  "history_free W \<longleftrightarrow>
     (\<forall>h h' ps. movie_reply W h ps = movie_reply W h' ps) \<and>
     (\<forall>h h' ps. search_reply W h ps = search_reply W h' ps)"

definition outcome :: "H list \<times> string set \<times> history \<Rightarrow> H list \<times> string set" where
  "outcome x = (fst x, fst (snd x))"

text \<open>
  Counting the provider calls: \<open>is_search\<close> picks the requests for a search page, and
  \<open>issues h h' calls\<close> says that \<open>calls\<close> are the requests made from history \<open>h\<close> to
  history \<open>h'\<close>.
\<close>

fun is_search :: "request \<Rightarrow> bool" where
  "is_search (SearchQuery ps) = True"
| "is_search (MovieQuery ps) = False"

definition issues :: "history \<Rightarrow> history \<Rightarrow> request list \<Rightarrow> bool" where
  "issues h h' calls \<longleftrightarrow> h' = h @ calls"






text \<open>
  The pages of a provider are within \<open>n\<close> when no search page it sends lists more than
  \<open>n\<close> items.
\<close>

definition pages_within :: "omdb \<Rightarrow> nat \<Rightarrow> bool" where
  "pages_within W n \<longleftrightarrow>
     (\<forall>h ps r. search_reply W h ps = Some r \<longrightarrow> length (Search r) \<le> n)"

text \<open>
  A provider whose every search page lists \<open>n\<close> items. It resolves the title \<open>Heat\<close>
  and no identifier.
\<close>

definition wide :: "nat \<Rightarrow> omdb" where
  "wide n = \<lparr> movie_reply = (\<lambda>h ps. if ps = [(''t'', ''Heat'')] then demo_movies ''tt0'' else None),
              search_reply = (\<lambda>h ps. Some (mkPage (replicate n ''tt1''))) \<rparr>"

text \<open>
  A provider that answers the lookup of \<open>tt9\<close> with the record of the seed, which
  carries the identifier \<open>tt0\<close>.
\<close>

definition demo_alias :: omdb where
  "demo_alias = \<lparr> movie_reply = (\<lambda>h ps.
                     if ps = [(''t'', ''Heat'')] \<or> ps = [(''i'', ''tt9'')] then demo_movies ''tt0''
                     else None),
                  search_reply = (\<lambda>h ps.
                     if ps = pageParams ''Crime'' 1 then Some (mkPage [''tt9'']) else None) \<rparr>"

text \<open>
  A provider with sixteen films of one genre on the page of the first seed word: the
  first is rated lowest and the last highest.
\<close>

definition many_ids :: "string list" where
  "many_ids = [''m00'', ''m01'', ''m02'', ''m03'', ''m04'', ''m05'', ''m06'', ''m07'',
               ''m08'', ''m09'', ''m10'', ''m11'', ''m12'', ''m13'', ''m14'', ''m15'']"

definition many_rating :: "string \<Rightarrow> string" where
  "many_rating ident =
     (if ident = ''m00'' then ''6.9'' else if ident = ''m15'' then ''9.2'' else ''8.3'')"

definition demo_many :: omdb where
  "demo_many = \<lparr> movie_reply = (\<lambda>h ps.
                    case ps of
                      [(k, v)] \<Rightarrow>
                        if k = ''i'' \<and> v \<in> set many_ids
                        then Some (mkMovie v ''Film'' ''Noir'' ''N/A'' ''N/A'' (many_rating v))
                        else None
                    | _ \<Rightarrow> None),
                 search_reply = (\<lambda>h ps.
                    if ps = pageParams ''the'' 1 then Some (mkPage many_ids) else None) \<rparr>"


definition demo_many_top :: "H list" where
  "demo_many_top =
     map (\<lambda>i. genreRow i ''Film'' ''Noir'' (many_rating i)) (''m15'' # take 14 (tl many_ids))"

text \<open>
  The same sixteen films with other ratings: the fifteenth is rated \<open>NaN\<close> and the last
  9.2, the others 8.3.
\<close>

definition nan_rating :: "string \<Rightarrow> string" where
  "nan_rating ident =
     (if ident = ''m14'' then ''NaN'' else if ident = ''m15'' then ''9.2'' else ''8.3'')"

definition demo_nan :: omdb where
  "demo_nan = \<lparr> movie_reply = (\<lambda>h ps.
                   case ps of
                     [(k, v)] \<Rightarrow>
                       if k = ''i'' \<and> v \<in> set many_ids
                       then Some (mkMovie v ''Film'' ''Noir'' ''N/A'' ''N/A'' (nan_rating v))
                       else None
                   | _ \<Rightarrow> None),
                search_reply = (\<lambda>h ps.
                   if ps = pageParams ''the'' 1 then Some (mkPage many_ids) else None) \<rparr>"

definition demo_nan_found :: "H list" where
  "demo_nan_found = map (\<lambda>i. genreRow i ''Film'' ''Noir'' (nan_rating i)) many_ids"


section \<open>Basic facts\<close>

subsection \<open>Provider calls\<close>

lemma fetchMovie_cases:
  obtains (Fail) e where "fetchMovie W ps h = (Inl e, h @ [MovieQuery ps])"
  | (Found) m where "fetchMovie W ps h = (Inr m, h @ [MovieQuery ps])"
      "movie_reply W h ps = Some m" "Response m \<noteq> ''False''"
proof (cases "movie_reply W h ps")
  case None
  then show ?thesis using Fail by (simp add: fetchMovie_def fetchFromOMDb_Movie_def)
next
  case (Some m)
  then show ?thesis using Fail Found
    by (cases "Response m = ''False''") (simp_all add: fetchMovie_def fetchFromOMDb_Movie_def)
qed

lemma fetchSearchPage_cases:
  obtains (Fail) e where
      "fetchSearchPage W q p h = (Inl e, h @ [SearchQuery (pageParams q p)])"
  | (Found) r where
      "fetchSearchPage W q p h = (Inr r, h @ [SearchQuery (pageParams q p)])"
      "search_reply W h (pageParams q p) = Some r" "Search_Response r \<noteq> ''False''"
proof (cases "search_reply W h (pageParams q p)")
  case None
  then show ?thesis using Fail by (simp add: fetchSearchPage_def fetchFromOMDb_Search_def)
next
  case (Some r)
  then show ?thesis using Fail Found
    by (cases "Search_Response r = ''False''")
       (simp_all add: fetchSearchPage_def fetchFromOMDb_Search_def)
qed

lemma collectPages_stop:
  "\<not> (page \<le> 3 \<and> length results < limit) \<Longrightarrow>
   collectPages W level limit kw page results seen h = (results, seen, h)"
  by (subst collectPages.simps) auto

lemma collectPages_step:
  "page \<le> 3 \<Longrightarrow> length results < limit \<Longrightarrow>
   collectPages W level limit kw page results seen h =
     (case fetchSearchPage W kw page h of
        (Inl err, h') \<Rightarrow> collectPages W level limit kw (page + 1) results seen h'
      | (Inr search, h') \<Rightarrow>
          (case collectItems W level limit (Search search) results seen h' of
             (results', seen', h'') \<Rightarrow>
               collectPages W level limit kw (page + 1) results' seen' h''))"
  by (subst collectPages.simps) simp

declare collectPages.simps [simp del]

lemma sort_permutes_set: "sort_permutes srt \<Longrightarrow> set (srt lt xs) = set xs"
  by (metis sort_permutes_def mset_eq_setD)

lemma sort_permutes_length: "sort_permutes srt \<Longrightarrow> length (srt lt xs) = length xs"
  by (metis sort_permutes_def mset_eq_length)

subsection \<open>The shape of an answer\<close>

lemma getRecommendations_OK:
  assumes "fst (getRecommendations L W fav h) = OK recs"
  obtains m s1 h1 s2 h2 s3 h3 where
    "fav \<noteq> []"
    "fetchMovie W [(''t'', fav)] h = (Inr m, h @ [MovieQuery [(''t'', fav)]])"
    "collect L W ''Genre'' (Split (Genre m) CHR '','') 5 {IMDBID m}
       (h @ [MovieQuery [(''t'', fav)]]) = (by_genre recs, s1, h1)"
    "collect L W ''Director'' (Split (Director m) CHR '','') 5 s1 h1 = (by_director recs, s2, h2)"
    "collect L W ''Actor'' (Split (Actors m) CHR '','') 5 s2 h2 = (by_actor recs, s3, h3)"
    "favorite_movie recs = Title m"
    "snd (getRecommendations L W fav h) = h3"
proof -
  have fav: "fav \<noteq> []" using assms by (auto simp: getRecommendations_def)
  show thesis
  proof (cases rule: fetchMovie_cases [of W "[(''t'', fav)]" h])
    case (Fail e)
    then show ?thesis using assms fav by (simp add: getRecommendations_def)
  next
    case (Found m)
    obtain g s1 h1 where c1: "collect L W ''Genre'' (Split (Genre m) CHR '','') 5 {IMDBID m}
        (h @ [MovieQuery [(''t'', fav)]]) = (g, s1, h1)"
      using prod_cases3 by blast
    obtain d s2 h2 where c2:
      "collect L W ''Director'' (Split (Director m) CHR '','') 5 s1 h1 = (d, s2, h2)"
      using prod_cases3 by blast
    obtain a s3 h3 where c3:
      "collect L W ''Actor'' (Split (Actors m) CHR '','') 5 s2 h2 = (a, s3, h3)"
      using prod_cases3 by blast
    have run: "getRecommendations L W fav h =
        (OK \<lparr> favorite_movie = Title m, by_genre = g, by_director = d, by_actor = a \<rparr>, h3)"
      using fav Found(1) c1 c2 c3 by (simp add: getRecommendations_def Let_def)
    then have "recs = \<lparr> favorite_movie = Title m, by_genre = g, by_director = d, by_actor = a \<rparr>"
      using assms by simp
    then show ?thesis using that [of m s1 h1 s2 h2 s3 h3] fav Found(1) c1 c2 c3 run by simp
  qed
qed

lemma getMoviesByGenre_OK:
  assumes "fst (getMoviesByGenre L W genre h) = OK ms"
  shows "genre \<noteq> []"
    and "ms = take 15 (sortSlice L (ratingLess L) (fst (seedsLoop L W genre searchSeeds [] h)))"
    and "snd (getMoviesByGenre L W genre h) = snd (seedsLoop L W genre searchSeeds [] h)"
  using assms
  by (auto simp: getMoviesByGenre_def Let_def split: if_splits prod.splits)

subsection \<open>Sorting\<close>

lemma mset_insertBack: "mset (insertBack lt x ys) = add_mset x (mset ys)"
  by (induction ys) auto

lemma mset_foldl_insertBack:
  "mset (foldl (\<lambda>p x. insertBack lt x p) acc xs) = mset acc + mset xs"
  by (induction xs arbitrary: acc) (auto simp: mset_insertBack)

lemma insertionSort_permutes: "sort_permutes insertionSort"
  by (simp add: sort_permutes_def insertionSort_def mset_foldl_insertBack)

lemma set_insertBack: "set (insertBack lt x ys) = insert x (set ys)"
  by (induction ys) auto

lemma insertBack_sorted:
  assumes "transitive_ordering S lt" "x \<in> S" "set ys \<subseteq> S"
    and "sorted_wrt (\<lambda>a b. \<not> lt a b) ys"
  shows "sorted_wrt (\<lambda>a b. \<not> lt a b) (insertBack lt x ys)"
  using assms(3,4)
proof (induction ys)
  case Nil
  then show ?case by simp
next
  case (Cons y ys)
  have irr: "\<And>a. a \<in> S \<Longrightarrow> \<not> lt a a"
    and tr: "\<And>a b c. a \<in> S \<Longrightarrow> b \<in> S \<Longrightarrow> c \<in> S \<Longrightarrow> lt a b \<Longrightarrow> lt b c \<Longrightarrow> lt a c"
    and ntr: "\<And>a b c. a \<in> S \<Longrightarrow> b \<in> S \<Longrightarrow> c \<in> S \<Longrightarrow> \<not> lt a b \<Longrightarrow> \<not> lt b c \<Longrightarrow> \<not> lt a c"
    using assms(1) unfolding transitive_ordering_def by blast+
  have yS: "y \<in> S" and ysS: "set ys \<subseteq> S" using Cons.prems by auto
  show ?case
  proof (cases "lt x y")
    case True
    have "\<not> lt y x" using True irr tr assms(2) yS by blast
    then show ?thesis using True Cons ysS by (auto simp: set_insertBack)
  next
    case False
    have "\<forall>z\<in>set ys. \<not> lt x z"
      using False Cons.prems ntr assms(2) yS ysS by (metis sorted_wrt.simps(2) subsetD)
    then show ?thesis using False Cons.prems by simp
  qed
qed

lemma foldl_insertBack_sorted:
  assumes "transitive_ordering S lt"
  shows "set xs \<subseteq> S \<Longrightarrow> set acc \<subseteq> S \<Longrightarrow> sorted_wrt (\<lambda>a b. \<not> lt a b) acc \<Longrightarrow>
         sorted_wrt (\<lambda>a b. \<not> lt a b) (foldl (\<lambda>p x. insertBack lt x p) acc xs)"
proof (induction xs arbitrary: acc)
  case Nil
  then show ?case by simp
next
  case (Cons x xs)
  have "sorted_wrt (\<lambda>a b. \<not> lt a b) (insertBack lt x acc)"
    using insertBack_sorted [OF assms, of x acc] Cons.prems by simp
  moreover have "set (insertBack lt x acc) \<subseteq> S"
    using Cons.prems by (simp add: set_insertBack)
  ultimately show ?case using Cons by simp
qed

lemma insertionSort_sorted:
  "transitive_ordering (set xs) lt \<Longrightarrow> sorted_wrt (\<lambda>a b. \<not> lt b a) (insertionSort lt xs)"
  using foldl_insertBack_sorted [of "set xs" lt xs "[]"]
  by (simp add: insertionSort_def sorted_wrt_rev)

lemma insertionSort_orders: "sort_orders insertionSort"
  by (simp add: sort_orders_def insertionSort_sorted)

lemma demo_crime_run:
  "getMoviesByGenre go_lib demo ''crime'' [] = (OK demo_crime, demo_crime_requests)"
  by code_simp

lemma demo_horror_run: "fst (getMoviesByGenre go_lib demo ''horror'' []) = OK demo_horror"
  by code_simp

lemma demo_western_run: "fst (getMoviesByGenre go_lib demo ''western'' []) = OK demo_western"
  by code_simp

lemma demo_mystery_run:
  "fst (getMoviesByGenre go_lib demo ''mystery'' []) = OK demo_mystery"
  by code_simp

lemma demo_crime_found_run:
  "fst (seedsLoop go_lib demo ''crime'' searchSeeds [] []) = demo_crime_found"
  by code_simp

lemma demo_mystery_found_run:
  "fst (seedsLoop go_lib demo ''mystery'' searchSeeds [] []) = demo_mystery"
  by code_simp

lemma demo_genre_axis_run:
  "fst (collect go_lib demo ''Genre'' [''Crime'', '' Drama''] 5 {''tt0''} []) = by_genre demo_heat"
  by code_simp

lemma demo_genre_axis_found_run:
  "fst (collectKeywords go_lib demo ''Genre'' 5 [''Crime'', '' Drama''] [] {''tt0''} []) =
     by_genre demo_heat"
  by code_simp


lemma demo_many_run: "fst (getMoviesByGenre go_lib demo_many ''noir'' []) = OK demo_many_top"
  by code_simp



lemma demo_heat_run:
  "getRecommendations go_lib demo ''Heat'' [] = (OK demo_heat, demo_heat_requests)"
  by code_simp

lemma demo_seed: "fetchMovie demo [(''t'', ''Heat'')] [] =
    (Inr (mkMovie ''tt0'' ''Heat'' ''Crime, Drama'' ''Mann'' ''N/A'' ''8.3''),
     [MovieQuery [(''t'', ''Heat'')]])"
  by (simp add: fetchMovie_def fetchFromOMDb_Movie_def demo_def demo_movies_def mkMovie_def)

lemma go_lib_sort [simp]: "sortSlice go_lib = insertionSort"
  by (simp add: go_lib_def)

lemma go_lib_permutes: "sort_permutes (sortSlice go_lib)"
  by (simp add: insertionSort_permutes)

lemma go_lib_orders: "sort_orders (sortSlice go_lib)"
  by (simp add: insertionSort_orders)

lemma go_lib_short: "sorts_short_by_insertion n (sortSlice go_lib)"
  by (simp add: sorts_short_by_insertion_def)

lemma demo_scores:
  "score go_lib (genreRow i t g r) = fst (table_ParseFloat r)"
  "score go_lib (recRow i t g r l) = fst (table_ParseFloat r)"
  by (simp_all add: score_def go_lib_def genreRow_def recRow_def)

section \<open>The cap on the result lists\<close>

lemma collectItems_length:
  "length results < limit \<Longrightarrow>
   length (fst (collectItems W level limit ss results seen h)) \<le> limit"
proof (induction ss arbitrary: results seen h)
  case Nil
  then show ?case by simp
next
  case (Cons s ss)
  show ?case
  proof (cases "Item_IMDBID s \<in> seen")
    case True
    then show ?thesis using Cons by simp
  next
    case False
    show ?thesis
    proof (cases rule: fetchMovie_cases [of W "[(''i'', Item_IMDBID s)]" h])
      case (Fail e)
      then show ?thesis using False Cons by simp
    next
      case (Found m)
      then show ?thesis using False Cons by (auto simp: Let_def)
    qed
  qed
qed

lemma collectPages_length:
  "length results \<le> limit \<Longrightarrow>
   length (fst (collectPages W level limit kw page results seen h)) \<le> limit"
proof (induction W level limit kw page results seen h rule: collectPages.induct)
  case (1 W level limit kw page results seen h)
  show ?case
  proof (cases "page \<le> 3 \<and> length results < limit")
    case False
    then show ?thesis using "1.prems" by (simp add: collectPages_stop)
  next
    case True
    show ?thesis
    proof (cases rule: fetchSearchPage_cases [of W kw page h])
      case (Fail e)
      then show ?thesis using True "1.IH"(1) "1.prems" by (simp add: collectPages_step)
    next
      case (Found r)
      obtain rs sn hh where ci:
        "collectItems W level limit (Search r) results seen (h @ [SearchQuery (pageParams kw page)]) = (rs, sn, hh)"
        by (cases "collectItems W level limit (Search r) results seen (h @ [SearchQuery (pageParams kw page)])") auto
      have "length rs \<le> limit"
        using collectItems_length [of results limit W level "Search r" seen "h @ [SearchQuery (pageParams kw page)]"] True ci
        by simp
      then show ?thesis using True Found ci "1.IH"(2) by (simp add: collectPages_step)
    qed
  qed
qed

lemma collectKeywords_length:
  "length results \<le> limit \<Longrightarrow>
   length (fst (collectKeywords L W level limit kws results seen h)) \<le> limit"
proof (induction kws arbitrary: results seen h)
  case Nil
  then show ?case by simp
next
  case (Cons kw0 kws)
  obtain rs sn hh where cp:
    "collectPages W level limit (TrimSpace L kw0) 1 results seen h = (rs, sn, hh)"
    by (cases "collectPages W level limit (TrimSpace L kw0) 1 results seen h") auto
  have "length rs \<le> limit"
    using collectPages_length [OF Cons.prems, of W level "TrimSpace L kw0" 1 seen h] cp by simp
  then show ?case using Cons cp by (auto simp: Let_def)
qed

lemma collect_length:
  "sort_permutes (sortSlice L) \<Longrightarrow>
   length (fst (collect L W level keywords limit seen h)) \<le> limit"
  using collectKeywords_length [of "[]" limit L W level "keywords" seen h]
  by (auto simp: collect_def sort_permutes_length split: prod.splits)

text \<open>
  Claim C6. Whatever the provider answers, a category search returns at most 15 entries
  and a relation search at most 5 entries on each of its three axes. (\<open>sort.Slice\<close> is
  only asked to rearrange the slice.)
\<close>

theorem cap_invariant:
  assumes "sort_permutes (sortSlice L)"
  shows "(fst (getMoviesByGenre L W genre h) = OK ms \<longrightarrow> length ms \<le> 15) \<and>
         (fst (getRecommendations L W fav h) = OK recs \<longrightarrow>
            length (by_genre recs) \<le> 5 \<and> length (by_director recs) \<le> 5 \<and>
            length (by_actor recs) \<le> 5)"
proof -
  have a: "fst (getMoviesByGenre L W genre h) = OK ms \<longrightarrow> length ms \<le> 15"
    by (auto simp: getMoviesByGenre_def Let_def split: if_splits prod.splits)
  have b: "fst (getRecommendations L W fav h) = OK recs \<longrightarrow>
            length (by_genre recs) \<le> 5 \<and> length (by_director recs) \<le> 5 \<and>
            length (by_actor recs) \<le> 5"
  proof
    assume ok: "fst (getRecommendations L W fav h) = OK recs"
    then have fav: "fav \<noteq> []" by (auto simp: getRecommendations_def)
    show "length (by_genre recs) \<le> 5 \<and> length (by_director recs) \<le> 5 \<and>
            length (by_actor recs) \<le> 5"
    proof (cases rule: fetchMovie_cases [of W "[(''t'', fav)]" h])
      case (Fail e)
      then show ?thesis using ok fav by (simp add: getRecommendations_def)
    next
      case (Found m)
      obtain g s1 h1 where c1: "collect L W ''Genre'' (Split (Genre m) CHR '','') 5 {IMDBID m} (h @ [MovieQuery [(''t'', fav)]]) = (g, s1, h1)"
        using prod_cases3 by blast
      obtain d s2 h2 where c2: "collect L W ''Director'' (Split (Director m) CHR '','') 5 s1 h1 = (d, s2, h2)"
        using prod_cases3 by blast
      obtain a s3 h3 where c3: "collect L W ''Actor'' (Split (Actors m) CHR '','') 5 s2 h2 = (a, s3, h3)"
        using prod_cases3 by blast
      have "length g \<le> 5" using collect_length [OF assms, of W "''Genre''" _ 5] c1 by (metis fst_conv)
      moreover have "length d \<le> 5" using collect_length [OF assms, of W "''Director''" _ 5] c2 by (metis fst_conv)
      moreover have "length a \<le> 5" using collect_length [OF assms, of W "''Actor''" _ 5] c3 by (metis fst_conv)
      moreover have "recs = \<lparr> favorite_movie = Title m, by_genre = g, by_director = d, by_actor = a \<rparr>"
        using ok fav Found c1 c2 c3 by (simp add: getRecommendations_def Let_def)
      ultimately show ?thesis by simp
    qed
  qed
  from a b show ?thesis by simp
qed

theorem cap_invariant_witness:
  "sort_permutes (sortSlice go_lib) \<and>
   fst (getMoviesByGenre go_lib demo_many ''noir'' []) = OK demo_many_top \<and>
   length demo_many_top \<le> 15 \<and>
   fst (getRecommendations go_lib demo ''Heat'' []) = OK demo_heat \<and>
   length (by_genre demo_heat) \<le> 5 \<and> length (by_director demo_heat) \<le> 5 \<and>
   length (by_actor demo_heat) \<le> 5"
proof -
  have "length demo_many_top \<le> 15"
    using cap_invariant [OF go_lib_permutes, of demo_many "''noir''" "[]" demo_many_top]
      demo_many_run by simp
  moreover have "length (by_genre demo_heat) \<le> 5 \<and> length (by_director demo_heat) \<le> 5 \<and>
      length (by_actor demo_heat) \<le> 5"
    using cap_invariant [OF go_lib_permutes, of demo "''crime''" "[]" demo_crime "''Heat''" demo_heat]
      demo_heat_run by simp
  ultimately show ?thesis using go_lib_permutes demo_many_run demo_heat_run by simp
qed

section \<open>The category filter\<close>

lemma genresLoop_set:
  "e \<in> set (genresLoop L genre movie gs acc) \<Longrightarrow>
   e \<in> set acc \<or> (e = genreEntry movie \<and> (\<exists>g\<in>set gs. EqualFold L (TrimSpace L g) genre))"
  by (induction gs) (auto split: if_splits)

lemma itemsLoop_set:
  "e \<in> set (fst (itemsLoop L W genre items acc h)) \<Longrightarrow>
   e \<in> set acc \<or>
   (H_imdbRating e \<noteq> ''N/A'' \<and>
    (\<exists>g\<in>set (Split (H_Genre e) CHR '',''). EqualFold L (TrimSpace L g) genre))"
proof (induction items arbitrary: acc h)
  case Nil
  then show ?case by simp
next
  case (Cons item items)
  show ?case
  proof (cases rule: fetchMovie_cases [of W "[(''i'', Item_IMDBID item)]" h])
    case (Fail err)
    then show ?thesis using Cons by simp
  next
    case (Found m)
    show ?thesis
    proof (cases "Response m = ''False'' \<or> IMDBRating m = ''N/A''")
      case True
      then show ?thesis using Found Cons by auto
    next
      case False
      then have "e \<in> set (fst (itemsLoop L W genre items
          (genresLoop L genre m (Split (Genre m) CHR '','') acc) (h @ [MovieQuery [(''i'', Item_IMDBID item)]])))"
        using Found Cons.prems by simp
      from Cons.IH [OF this] show ?thesis
        using False genresLoop_set [of e L genre m "Split (Genre m) CHR '',''" acc]
        by (auto simp: genreEntry_def)
    qed
  qed
qed

lemma seedsLoop_set:
  "e \<in> set (fst (seedsLoop L W genre seeds acc h)) \<Longrightarrow>
   e \<in> set acc \<or>
   (H_imdbRating e \<noteq> ''N/A'' \<and>
    (\<exists>g\<in>set (Split (H_Genre e) CHR '',''). EqualFold L (TrimSpace L g) genre))"
proof (induction seeds arbitrary: acc h)
  case Nil
  then show ?case by simp
next
  case (Cons seed seeds)
  show ?case
  proof (cases rule: fetchSearchPage_cases [of W seed 1 h])
    case (Fail err)
    then show ?thesis using Cons by (simp add: fetchSearchResults_def)
  next
    case (Found r)
    obtain acc' h' where il: "itemsLoop L W genre (Search r) acc
        (h @ [SearchQuery (pageParams seed 1)]) = (acc', h')"
      by (cases "itemsLoop L W genre (Search r) acc (h @ [SearchQuery (pageParams seed 1)])") auto
    then have "e \<in> set (fst (seedsLoop L W genre seeds acc' h'))"
      using Found Cons.prems by (simp add: fetchSearchResults_def)
    from Cons.IH [OF this] show ?thesis
      using itemsLoop_set [of e L W genre "Search r" acc "h @ [SearchQuery (pageParams seed 1)]"] il
      by auto
  qed
qed

text \<open>
  Claim C7. An entry of the answer of a category search has, among the tags obtained by
  splitting its genre field at the commas, at least one that \<open>strings.EqualFold\<close> makes
  equal to the requested genre after \<open>strings.TrimSpace\<close> of the tag. An entity without
  such a tag is never in the answer.
\<close>

theorem category_filter:
  assumes "sort_permutes (sortSlice L)"
    and "fst (getMoviesByGenre L W genre h) = OK ms"
    and "e \<in> set ms"
  shows "\<exists>g\<in>set (Split (H_Genre e) CHR '',''). EqualFold L (TrimSpace L g) genre"
proof -
  have "e \<in> set (sortSlice L (ratingLess L) (fst (seedsLoop L W genre searchSeeds [] h)))"
    using getMoviesByGenre_OK(2) [OF assms(2)] assms(3) by (auto dest: in_set_takeD)
  then have "e \<in> set (fst (seedsLoop L W genre searchSeeds [] h))"
    using sort_permutes_set [OF assms(1)] by simp
  from seedsLoop_set [OF this] show ?thesis by simp
qed

theorem category_filter_witness:
  "sort_permutes (sortSlice go_lib) \<and>
   fst (getMoviesByGenre go_lib demo ''crime'' []) = OK demo_crime \<and>
   genreRow ''tt4'' ''Seven'' ''crime , Mystery'' ''9.2'' \<in> set demo_crime \<and>
   (\<exists>g\<in>set (Split ''crime , Mystery'' CHR '',''). EqualFold go_lib (TrimSpace go_lib g) ''crime'')"
  using category_filter [of go_lib demo "''crime''" "[]" demo_crime
      "genreRow ''tt4'' ''Seven'' ''crime , Mystery'' ''9.2''"]
    demo_crime_run insertionSort_permutes
  by (auto simp: demo_crime_def genreRow_def)

section \<open>Scores that are not available\<close>

lemma collectItems_set:
  "e \<in> set (fst (collectItems W level limit ss results seen h)) \<Longrightarrow>
   e \<in> set results \<or> H_imdbRating e \<noteq> ''N/A''"
proof (induction ss arbitrary: results seen h)
  case Nil
  then show ?case by simp
next
  case (Cons s ss)
  show ?case
  proof (cases "Item_IMDBID s \<in> seen")
    case True
    then show ?thesis using Cons by simp
  next
    case False
    show ?thesis
    proof (cases rule: fetchMovie_cases [of W "[(''i'', Item_IMDBID s)]" h])
      case (Fail err)
      then show ?thesis using False Cons by simp
    next
      case (Found m)
      show ?thesis
      proof (cases "IMDBRating m = ''N/A''")
        case True
        then show ?thesis using False Found Cons by simp
      next
        case na: False
        show ?thesis
        proof (cases "limit \<le> Suc (length results)")
          case True
          then show ?thesis using na False Found Cons.prems
            by (auto simp: Let_def recEntry_def)
        next
          case lim: False
          then have "e \<in> set (fst (collectItems W level limit ss (results @ [recEntry level m])
              (insert (Item_IMDBID s) seen) (h @ [MovieQuery [(''i'', Item_IMDBID s)]])))"
            using na False Found Cons.prems by (simp add: Let_def)
          from Cons.IH [OF this] show ?thesis using na by (auto simp: recEntry_def)
        qed
      qed
    qed
  qed
qed

lemma collectPages_set:
  "e \<in> set (fst (collectPages W level limit kw page results seen h)) \<Longrightarrow>
   e \<in> set results \<or> H_imdbRating e \<noteq> ''N/A''"
proof (induction W level limit kw page results seen h rule: collectPages.induct)
  case (1 W level limit kw page results seen h)
  show ?case
  proof (cases "page \<le> 3 \<and> length results < limit")
    case False
    then show ?thesis using "1.prems" by (simp add: collectPages_stop)
  next
    case True
    show ?thesis
    proof (cases rule: fetchSearchPage_cases [of W kw page h])
      case (Fail err)
      then show ?thesis using True "1.IH"(1) "1.prems" by (simp add: collectPages_step)
    next
      case (Found r)
      obtain rs sn hh where ci: "collectItems W level limit (Search r) results seen
          (h @ [SearchQuery (pageParams kw page)]) = (rs, sn, hh)"
        using prod_cases3 by blast
      have "e \<in> set (fst (collectPages W level limit kw (page + 1) rs sn hh))"
        using True Found ci "1.prems" by (simp add: collectPages_step)
      then have "e \<in> set rs \<or> H_imdbRating e \<noteq> ''N/A''"
        using True Found ci "1.IH"(2) by simp
      then show ?thesis
        using collectItems_set [of e W level limit "Search r" results seen
            "h @ [SearchQuery (pageParams kw page)]"] ci
        by auto
    qed
  qed
qed

lemma collectKeywords_set:
  "e \<in> set (fst (collectKeywords L W level limit kws results seen h)) \<Longrightarrow>
   e \<in> set results \<or> H_imdbRating e \<noteq> ''N/A''"
proof (induction kws arbitrary: results seen h)
  case Nil
  then show ?case by simp
next
  case (Cons kw0 kws)
  obtain rs sn hh where cp:
    "collectPages W level limit (TrimSpace L kw0) 1 results seen h = (rs, sn, hh)"
    using prod_cases3 by blast
  have pages: "e \<in> set rs \<Longrightarrow> e \<in> set results \<or> H_imdbRating e \<noteq> ''N/A''"
    using collectPages_set [of e W level limit "TrimSpace L kw0" 1 results seen h] cp by simp
  show ?case
  proof (cases "TrimSpace L kw0 = [] \<or> TrimSpace L kw0 = ''N/A''")
    case True
    then show ?thesis using Cons by (auto simp: Let_def)
  next
    case False
    show ?thesis
    proof (cases "limit \<le> length rs")
      case True
      then show ?thesis using False cp Cons.prems pages by (auto simp: Let_def)
    next
      case lim: False
      then have "e \<in> set (fst (collectKeywords L W level limit kws rs sn hh))"
        using False cp Cons.prems by (auto simp: Let_def)
      from Cons.IH [OF this] show ?thesis using pages by auto
    qed
  qed
qed

lemma collect_set:
  assumes "sort_permutes (sortSlice L)"
    and "e \<in> set (fst (collect L W level kws limit seen h))"
  shows "H_imdbRating e \<noteq> ''N/A''"
proof -
  have "e \<in> set (fst (collectKeywords L W level limit kws [] seen h))"
    using assms by (auto simp: collect_def sort_permutes_set split: prod.splits)
  from collectKeywords_set [OF this] show ?thesis by simp
qed

lemma getMoviesByGenre_answers:
  "genre \<noteq> [] \<Longrightarrow> \<exists>ms. fst (getMoviesByGenre L W genre h) = OK ms"
  by (simp add: getMoviesByGenre_def Let_def split: prod.splits)

lemma getRecommendations_answers:
  assumes "fav \<noteq> []" and "fst (fetchMovie W [(''t'', fav)] h) = Inr m"
  shows "\<exists>recs. fst (getRecommendations L W fav h) = OK recs"
  using assms by (auto simp: getRecommendations_def Let_def split: prod.splits sum.splits)

lemma itemsLoop_rejects:
  assumes "fst (fetchMovie W [(''i'', Item_IMDBID item)] h) = Inr movie"
    and "IMDBRating movie = ''N/A''"
  shows "itemsLoop L W genre (item # items) matchingMovies h =
         itemsLoop L W genre items matchingMovies (h @ [MovieQuery [(''i'', Item_IMDBID item)]])"
  using assms by (cases rule: fetchMovie_cases [of W "[(''i'', Item_IMDBID item)]" h]) auto

lemma collectItems_rejects:
  assumes "fst (fetchMovie W [(''i'', Item_IMDBID item)] h) = Inr movie"
    and "IMDBRating movie = ''N/A''"
  shows "collectItems W level limit (item # items) results seen h =
         collectItems W level limit items results seen
           (if Item_IMDBID item \<in> seen then h else h @ [MovieQuery [(''i'', Item_IMDBID item)]])"
  using assms by (cases rule: fetchMovie_cases [of W "[(''i'', Item_IMDBID item)]" h]) auto

lemma demo_ronin:
  "fst (fetchMovie demo [(''i'', Item_IMDBID (mkItem ''tt3''))] []) =
     Inr (mkMovie ''tt3'' ''Ronin'' ''Action, Crime'' ''N/A'' ''N/A'' ''N/A'')"
  "IMDBRating (mkMovie ''tt3'' ''Ronin'' ''Action, Crime'' ''N/A'' ''N/A'' ''N/A'') = ''N/A''"
  by code_simp+

text \<open>
  Claim C4 as the code has it. No entry of an answer carries the rating \<open>N/A\<close>. A
  candidate with that rating is rejected where it is found and nothing else happens: the
  loop over the items of the page goes on with the next item exactly as it would had the
  item not been there (only the lookup is on record), in the category search and in the
  relation search alike. The request does not fail for it: a category search with a genre
  always answers with a list, and so does a relation search whose seed resolves. Nothing
  tests whether a rating can be parsed: the handlers call \<open>strconv.ParseFloat\<close> only
  inside the comparison and drop its error.
\<close>

theorem sentinel_excluded:
  assumes "sort_permutes (sortSlice L)"
  shows "(fst (getMoviesByGenre L W genre h) = OK ms \<longrightarrow> (\<forall>e\<in>set ms. H_imdbRating e \<noteq> ''N/A'')) \<and>
         (fst (getRecommendations L W fav h) = OK recs \<longrightarrow>
            (\<forall>e\<in>set (by_genre recs @ by_director recs @ by_actor recs).
               H_imdbRating e \<noteq> ''N/A'')) \<and>
         (genre \<noteq> [] \<longrightarrow> (\<exists>ms'. fst (getMoviesByGenre L W genre h) = OK ms')) \<and>
         (fav \<noteq> [] \<longrightarrow> fst (fetchMovie W [(''t'', fav)] h) = Inr m \<longrightarrow>
            (\<exists>recs'. fst (getRecommendations L W fav h) = OK recs')) \<and>
         (fst (fetchMovie W [(''i'', Item_IMDBID item)] h') = Inr movie \<longrightarrow>
          IMDBRating movie = ''N/A'' \<longrightarrow>
            itemsLoop L W genre (item # items) matchingMovies h' =
              itemsLoop L W genre items matchingMovies
                (h' @ [MovieQuery [(''i'', Item_IMDBID item)]]) \<and>
            collectItems W level limit (item # items) results seen h' =
              collectItems W level limit items results seen
                (if Item_IMDBID item \<in> seen then h'
                 else h' @ [MovieQuery [(''i'', Item_IMDBID item)]]))"
proof -
  have a: "H_imdbRating e \<noteq> ''N/A''"
    if ok: "fst (getMoviesByGenre L W genre h) = OK ms" and e: "e \<in> set ms" for e
  proof -
    have "e \<in> set (sortSlice L (ratingLess L) (fst (seedsLoop L W genre searchSeeds [] h)))"
      using getMoviesByGenre_OK(2) [OF ok] e by (auto dest: in_set_takeD)
    then have "e \<in> set (fst (seedsLoop L W genre searchSeeds [] h))"
      using sort_permutes_set [OF assms] by simp
    from seedsLoop_set [OF this] show ?thesis by simp
  qed
  have b: "H_imdbRating e \<noteq> ''N/A''"
    if ok: "fst (getRecommendations L W fav h) = OK recs"
      and e: "e \<in> set (by_genre recs @ by_director recs @ by_actor recs)" for e
  proof (rule getRecommendations_OK [OF ok])
    fix m s1 h1 s2 h2 s3 h3
    assume c: "collect L W ''Genre'' (Split (Genre m) CHR '','') 5 {IMDBID m}
            (h @ [MovieQuery [(''t'', fav)]]) = (by_genre recs, s1, h1)"
         "collect L W ''Director'' (Split (Director m) CHR '','') 5 s1 h1 = (by_director recs, s2, h2)"
         "collect L W ''Actor'' (Split (Actors m) CHR '','') 5 s2 h2 = (by_actor recs, s3, h3)"
    from e consider "e \<in> set (by_genre recs)" | "e \<in> set (by_director recs)"
      | "e \<in> set (by_actor recs)" by auto
    then show ?thesis
    proof cases
      case 1
      then show ?thesis using collect_set [OF assms, of e W "''Genre''" _ 5] c(1) by (metis fst_conv)
    next
      case 2
      then show ?thesis using collect_set [OF assms, of e W "''Director''" _ 5] c(2) by (metis fst_conv)
    next
      case 3
      then show ?thesis using collect_set [OF assms, of e W "''Actor''" _ 5] c(3) by (metis fst_conv)
    qed
  qed
  have c: "genre \<noteq> [] \<longrightarrow> (\<exists>ms'. fst (getMoviesByGenre L W genre h) = OK ms')"
    using getMoviesByGenre_answers by blast
  have d: "fav \<noteq> [] \<longrightarrow> fst (fetchMovie W [(''t'', fav)] h) = Inr m \<longrightarrow>
            (\<exists>recs'. fst (getRecommendations L W fav h) = OK recs')"
    using getRecommendations_answers by blast
  have e: "itemsLoop L W genre (item # items) matchingMovies h' =
              itemsLoop L W genre items matchingMovies
                (h' @ [MovieQuery [(''i'', Item_IMDBID item)]]) \<and>
            collectItems W level limit (item # items) results seen h' =
              collectItems W level limit items results seen
                (if Item_IMDBID item \<in> seen then h'
                 else h' @ [MovieQuery [(''i'', Item_IMDBID item)]])"
    if "fst (fetchMovie W [(''i'', Item_IMDBID item)] h') = Inr movie"
      and "IMDBRating movie = ''N/A''"
    using itemsLoop_rejects [OF that] collectItems_rejects [OF that] by blast
  from a b c d e show ?thesis by blast
qed

theorem sentinel_excluded_witness:
  "sort_permutes (sortSlice go_lib) \<and>
   ''crime'' \<noteq> [] \<and>
   fst (getMoviesByGenre go_lib demo ''crime'' []) = OK demo_crime \<and>
   list_all (\<lambda>e. H_imdbRating e \<noteq> ''N/A'') demo_crime \<and>
   ''Heat'' \<noteq> [] \<and>
   fst (fetchMovie demo [(''t'', ''Heat'')] []) =
     Inr (mkMovie ''tt0'' ''Heat'' ''Crime, Drama'' ''Mann'' ''N/A'' ''8.3'') \<and>
   fst (getRecommendations go_lib demo ''Heat'' []) = OK demo_heat \<and>
   list_all (\<lambda>e. H_imdbRating e \<noteq> ''N/A'')
     (by_genre demo_heat @ by_director demo_heat @ by_actor demo_heat) \<and>
   fst (fetchMovie demo [(''i'', Item_IMDBID (mkItem ''tt3''))] []) =
     Inr (mkMovie ''tt3'' ''Ronin'' ''Action, Crime'' ''N/A'' ''N/A'' ''N/A'') \<and>
   IMDBRating (mkMovie ''tt3'' ''Ronin'' ''Action, Crime'' ''N/A'' ''N/A'' ''N/A'') = ''N/A'' \<and>
   itemsLoop go_lib demo ''crime'' [mkItem ''tt3'', mkItem ''tt1''] [] [] =
     itemsLoop go_lib demo ''crime'' [mkItem ''tt1''] []
       [MovieQuery [(''i'', Item_IMDBID (mkItem ''tt3''))]] \<and>
   collectItems demo ''Genre'' 5 [mkItem ''tt3'', mkItem ''tt1''] [] {''tt0''} [] =
     collectItems demo ''Genre'' 5 [mkItem ''tt1''] [] {''tt0''}
       [MovieQuery [(''i'', Item_IMDBID (mkItem ''tt3''))]]"
proof -
  have i: "Item_IMDBID (mkItem ''tt3'') \<notin> {''tt0''}" by (simp add: mkItem_def)
  show ?thesis
    using sentinel_excluded [OF go_lib_permutes, where W = demo and genre = "''crime''"
        and h = "[]" and ms = demo_crime and fav = "''Heat''" and recs = demo_heat
        and h' = "[]" and item = "mkItem ''tt3''" and items = "[mkItem ''tt1'']"
        and movie = "mkMovie ''tt3'' ''Ronin'' ''Action, Crime'' ''N/A'' ''N/A'' ''N/A''"
        and matchingMovies = "[]" and level = "''Genre''" and limit = 5 and results = "[]"
        and seen = "{''tt0''}"]
      demo_crime_run demo_heat_run go_lib_permutes demo_ronin demo_seed i
    unfolding list_all_iff by auto
qed

text \<open>
  Claim C4 as stated fails: a movie whose rating is the text \<open>unrated\<close>, which
  \<open>strconv.ParseFloat\<close> rejects, is returned by the category search.
\<close>

theorem unparseable_score_returned:
  "fst (getMoviesByGenre go_lib demo ''western'' []) = OK demo_western \<and>
   map H_imdbRating demo_western = [''unrated''] \<and>
   snd (ParseFloat go_lib ''unrated'')"
  using demo_western_run
  by (simp add: demo_western_def genreRow_def go_lib_def table_ParseFloat_def)

section \<open>Duplicates and the seed\<close>

lemma extends_dedup_refl: "extends_dedup results seen results seen"
  by (simp add: extends_dedup_def)

lemma extends_dedup_trans:
  assumes "extends_dedup r0 s0 r1 s1" and "extends_dedup r1 s1 r2 s2"
  shows "extends_dedup r0 s0 r2 s2"
proof -
  from assms(1) obtain n1 where n1: "r1 = r0 @ n1" "distinct (map H_imdbID n1)"
      "H_imdbID ` set n1 \<inter> s0 = {}" "s1 = s0 \<union> H_imdbID ` set n1"
    unfolding extends_dedup_def by blast
  from assms(2) obtain n2 where n2: "r2 = r1 @ n2" "distinct (map H_imdbID n2)"
      "H_imdbID ` set n2 \<inter> s1 = {}" "s2 = s1 \<union> H_imdbID ` set n2"
    unfolding extends_dedup_def by blast
  have "r2 = r0 @ (n1 @ n2)" using n1 n2 by simp
  moreover have "distinct (map H_imdbID (n1 @ n2))" using n1 n2 by auto
  moreover have "H_imdbID ` set (n1 @ n2) \<inter> s0 = {}" using n1 n2 by auto
  moreover have "s2 = s0 \<union> H_imdbID ` set (n1 @ n2)" using n1 n2 by auto
  ultimately show ?thesis unfolding extends_dedup_def by blast
qed

lemma extends_dedup_one:
  "ident \<notin> seen \<Longrightarrow> H_imdbID e = ident \<Longrightarrow>
   extends_dedup results seen (results @ [e]) (insert ident seen)"
  unfolding extends_dedup_def by (rule exI [of _ "[e]"]) auto

lemma collectItems_dedup:
  assumes "id_consistent W"
  shows "collectItems W level limit ss results seen h = (r', s', h') \<Longrightarrow>
         extends_dedup results seen r' s'"
proof (induction ss arbitrary: results seen h)
  case Nil
  then show ?case by (simp add: extends_dedup_refl)
next
  case (Cons s ss)
  show ?case
  proof (cases "Item_IMDBID s \<in> seen")
    case True
    then show ?thesis using Cons by simp
  next
    case False
    show ?thesis
    proof (cases rule: fetchMovie_cases [of W "[(''i'', Item_IMDBID s)]" h])
      case (Fail err)
      then show ?thesis using False Cons by simp
    next
      case (Found m)
      have idm: "IMDBID m = Item_IMDBID s"
        using assms Found(2) unfolding id_consistent_def by blast
      show ?thesis
      proof (cases "IMDBRating m = ''N/A''")
        case True
        then show ?thesis using False Found Cons by simp
      next
        case na: False
        have one: "extends_dedup results seen (results @ [recEntry level m])
            (insert (Item_IMDBID s) seen)"
          using False idm by (intro extends_dedup_one) (simp_all add: recEntry_def)
        show ?thesis
        proof (cases "limit \<le> Suc (length results)")
          case True
          then have "r' = results @ [recEntry level m]" "s' = insert (Item_IMDBID s) seen"
            using na False Found Cons.prems by (simp_all add: Let_def)
          then show ?thesis using one by simp
        next
          case lim: False
          then have "collectItems W level limit ss (results @ [recEntry level m])
              (insert (Item_IMDBID s) seen) (h @ [MovieQuery [(''i'', Item_IMDBID s)]]) = (r', s', h')"
            using na False Found Cons.prems by (simp add: Let_def)
          from Cons.IH [OF this] one show ?thesis by (rule extends_dedup_trans [rotated])
        qed
      qed
    qed
  qed
qed

lemma collectPages_dedup:
  "id_consistent W \<Longrightarrow> collectPages W level limit kw page results seen h = (r', s', h') \<Longrightarrow>
   extends_dedup results seen r' s'"
proof (induction W level limit kw page results seen h rule: collectPages.induct)
  case (1 W level limit kw page results seen h)
  note idc = "1.prems"(1) and run = "1.prems"(2)
  show ?case
  proof (cases "page \<le> 3 \<and> length results < limit")
    case False
    then show ?thesis using run by (simp add: collectPages_stop extends_dedup_refl)
  next
    case True
    show ?thesis
    proof (cases rule: fetchSearchPage_cases [of W kw page h])
      case (Fail err)
      then show ?thesis using True "1.IH"(1) idc run by (simp add: collectPages_step)
    next
      case (Found r)
      obtain rs sn hh where ci: "collectItems W level limit (Search r) results seen
          (h @ [SearchQuery (pageParams kw page)]) = (rs, sn, hh)"
        using prod_cases3 by blast
      have a: "extends_dedup results seen rs sn"
        using collectItems_dedup [OF idc ci] .
      have "collectPages W level limit kw (page + 1) rs sn hh = (r', s', h')"
        using True Found ci run by (simp add: collectPages_step)
      then have "extends_dedup rs sn r' s'"
        using True Found ci "1.IH"(2) idc by simp
      with a show ?thesis by (rule extends_dedup_trans)
    qed
  qed
qed

lemma collectKeywords_dedup:
  assumes "id_consistent W"
  shows "collectKeywords L W level limit kws results seen h = (r', s', h') \<Longrightarrow>
         extends_dedup results seen r' s'"
proof (induction kws arbitrary: results seen h)
  case Nil
  then show ?case by (simp add: extends_dedup_refl)
next
  case (Cons kw0 kws)
  obtain rs sn hh where cp:
    "collectPages W level limit (TrimSpace L kw0) 1 results seen h = (rs, sn, hh)"
    using prod_cases3 by blast
  have a: "extends_dedup results seen rs sn"
    using collectPages_dedup [OF assms cp] .
  show ?case
  proof (cases "TrimSpace L kw0 = [] \<or> TrimSpace L kw0 = ''N/A''")
    case True
    then show ?thesis using Cons by (auto simp: Let_def)
  next
    case False
    show ?thesis
    proof (cases "limit \<le> length rs")
      case True
      then have "r' = rs" "s' = sn" using False cp Cons.prems by (auto simp: Let_def)
      then show ?thesis using a by simp
    next
      case lim: False
      then have "collectKeywords L W level limit kws rs sn hh = (r', s', h')"
        using False cp Cons.prems by (auto simp: Let_def)
      from a Cons.IH [OF this] show ?thesis by (rule extends_dedup_trans)
    qed
  qed
qed

lemma collect_dedup:
  assumes "id_consistent W" and "sort_permutes (sortSlice L)"
    and "collect L W level kws limit seen h = (out, s', h')"
  shows "distinct (map H_imdbID out) \<and> H_imdbID ` set out \<inter> seen = {} \<and>
         s' = seen \<union> H_imdbID ` set out"
proof -
  obtain rs where ck: "collectKeywords L W level limit kws [] seen h = (rs, s', h')"
    and out: "out = sortSlice L (ratingLess L) rs"
    using assms(3) by (auto simp: collect_def split: prod.splits)
  have ms: "mset out = mset rs" using assms(2) out by (simp add: sort_permutes_def)
  have "extends_dedup [] seen rs s'" using collectKeywords_dedup [OF assms(1) ck] .
  then have rs: "distinct (map H_imdbID rs)" "H_imdbID ` set rs \<inter> seen = {}"
      "s' = seen \<union> H_imdbID ` set rs"
    unfolding extends_dedup_def by auto
  have "mset (map H_imdbID out) = mset (map H_imdbID rs)" using ms by simp
  then have "distinct (map H_imdbID out)" using rs(1) by (metis mset_eq_imp_distinct_iff)
  moreover have "set out = set rs" using ms by (rule mset_eq_setD)
  ultimately show ?thesis using rs by simp
qed

lemma demo_id_consistent: "id_consistent demo"
  by (auto simp: id_consistent_def demo_def demo_movies_def mkMovie_def split: if_splits)

text \<open>
  Claim C2 as the code has it. In a relation search over a provider whose records carry
  the identifier they were fetched by, the identifiers of the three axis lists taken
  together are pairwise different, so an identifier accepted under one axis is not
  accepted under a later one, and the identifier of the seed is in none of the lists.
  (The map \<open>seen\<close> is keyed by the identifier of the search item, while the entry shows
  the identifier of the fetched record.)
\<close>

theorem relation_dedup:
  assumes "id_consistent W" and "sort_permutes (sortSlice L)"
    and "fetchMovie W [(''t'', fav)] h = (Inr favMovie, h0)"
    and "fst (getRecommendations L W fav h) = OK recs"
  shows "distinct (map H_imdbID (by_genre recs @ by_director recs @ by_actor recs)) \<and>
         IMDBID favMovie \<notin> H_imdbID ` set (by_genre recs @ by_director recs @ by_actor recs)"
proof (rule getRecommendations_OK [OF assms(4)])
  fix m s1 h1 s2 h2 s3 h3
  assume fm: "fetchMovie W [(''t'', fav)] h = (Inr m, h @ [MovieQuery [(''t'', fav)]])"
    and c1: "collect L W ''Genre'' (Split (Genre m) CHR '','') 5 {IMDBID m}
            (h @ [MovieQuery [(''t'', fav)]]) = (by_genre recs, s1, h1)"
    and c2: "collect L W ''Director'' (Split (Director m) CHR '','') 5 s1 h1 = (by_director recs, s2, h2)"
    and c3: "collect L W ''Actor'' (Split (Actors m) CHR '','') 5 s2 h2 = (by_actor recs, s3, h3)"
  have m: "m = favMovie" using fm assms(3) by simp
  note d1 = collect_dedup [OF assms(1,2) c1]
  note d2 = collect_dedup [OF assms(1,2) c2]
  note d3 = collect_dedup [OF assms(1,2) c3]
  have "distinct (map H_imdbID (by_genre recs @ by_director recs @ by_actor recs))"
    using d1 d2 d3 by auto
  moreover have "IMDBID favMovie \<notin> H_imdbID ` set (by_genre recs @ by_director recs @ by_actor recs)"
    using d1 d2 d3 m by auto
  ultimately show ?thesis by simp
qed

theorem relation_dedup_witness:
  "id_consistent demo \<and> sort_permutes (sortSlice go_lib) \<and>
   fetchMovie demo [(''t'', ''Heat'')] [] =
     (Inr (mkMovie ''tt0'' ''Heat'' ''Crime, Drama'' ''Mann'' ''N/A'' ''8.3''),
      [MovieQuery [(''t'', ''Heat'')]]) \<and>
   fst (getRecommendations go_lib demo ''Heat'' []) = OK demo_heat \<and>
   distinct (map H_imdbID (by_genre demo_heat @ by_director demo_heat @ by_actor demo_heat)) \<and>
   ''tt0'' \<notin> H_imdbID ` set (by_genre demo_heat @ by_director demo_heat @ by_actor demo_heat)"
  using relation_dedup [of demo go_lib "''Heat''" "[]"
      "mkMovie ''tt0'' ''Heat'' ''Crime, Drama'' ''Mann'' ''N/A'' ''8.3''"
      "[MovieQuery [(''t'', ''Heat'')]]" demo_heat]
    demo_id_consistent go_lib_permutes demo_seed demo_heat_run
  by (auto simp: mkMovie_def)

text \<open>
  Claim C2 as stated fails for the category search, which keeps no set of identifiers:
  a movie that two seed words find is returned twice.
\<close>

theorem category_duplicates:
  "fst (getMoviesByGenre go_lib demo ''crime'' []) = OK demo_crime \<and>
   map H_imdbID demo_crime = [''tt4'', ''tt1'', ''tt1''] \<and>
   \<not> distinct (map H_imdbID demo_crime)"
  using demo_crime_run by (simp add: demo_crime_def genreRow_def)

text \<open>
  Why the statement above asks for a provider that is consistent in its identifiers: when
  the lookup of another identifier returns the record of the seed, the seed is listed.
\<close>

lemma alias_lists_the_seed:
  "fst (fetchMovie demo_alias [(''t'', ''Heat'')] []) =
     Inr (mkMovie ''tt0'' ''Heat'' ''Crime, Drama'' ''Mann'' ''N/A'' ''8.3'') \<and>
   fst (getRecommendations go_lib demo_alias ''Heat'' []) =
     OK \<lparr> favorite_movie = ''Heat'',
          by_genre = [recRow ''tt0'' ''Heat'' ''Crime, Drama'' ''8.3'' ''Genre''],
          by_director = [], by_actor = [] \<rparr>"
  by code_simp

section \<open>Ranking\<close>

lemma float_gt_irrefl: "\<not> float_gt a a"
  by (cases a) auto

lemma float_gt_trans: "float_gt a b \<Longrightarrow> float_gt b c \<Longrightarrow> float_gt a c"
  by (cases a; cases b; cases c) auto

lemma float_gt_negtrans:
  "b \<noteq> NaN \<Longrightarrow> \<not> float_gt a b \<Longrightarrow> \<not> float_gt b c \<Longrightarrow> \<not> float_gt a c"
  by (cases a; cases b; cases c) auto

lemma float_ge_iff: "a \<noteq> NaN \<Longrightarrow> b \<noteq> NaN \<Longrightarrow> float_ge a b \<longleftrightarrow> \<not> float_gt b a"
  by (cases a; cases b) auto

lemma ratingLess_ordering:
  assumes "\<forall>e\<in>S. score L e \<noteq> NaN"
  shows "transitive_ordering S (ratingLess L)"
  unfolding transitive_ordering_def ratingLess_def
  using assms float_gt_irrefl float_gt_trans float_gt_negtrans by blast

lemma ranked:
  assumes "sort_permutes (sortSlice L)" and "sort_orders (sortSlice L)"
    and "\<forall>e\<in>set xs. score L e \<noteq> NaN"
  shows "sorted_wrt (\<lambda>a b. \<not> ratingLess L b a) (sortSlice L (ratingLess L) xs)"
    and "sorted_wrt (\<lambda>a b. float_ge (score L a) (score L b)) (sortSlice L (ratingLess L) xs)"
proof -
  show s: "sorted_wrt (\<lambda>a b. \<not> ratingLess L b a) (sortSlice L (ratingLess L) xs)"
    using assms(2) ratingLess_ordering [OF assms(3)] unfolding sort_orders_def by blast
  have "\<forall>e\<in>set (sortSlice L (ratingLess L) xs). score L e \<noteq> NaN"
    using assms(1,3) by (simp add: sort_permutes_set)
  then show "sorted_wrt (\<lambda>a b. float_ge (score L a) (score L b)) (sortSlice L (ratingLess L) xs)"
    using s by (auto intro!: sorted_wrt_mono_rel [rotated, OF s] simp: float_ge_iff ratingLess_def)
qed

subsection \<open>Equal scores in a short list\<close>

lemma filter_insertBack:
  assumes "\<And>a b. lt a b \<Longrightarrow> key a \<noteq> key b"
  shows "filter (\<lambda>e. key e = k) (insertBack lt x ys) =
         filter (\<lambda>e. key e = k) [x] @ filter (\<lambda>e. key e = k) ys"
proof (induction ys)
  case Nil
  show ?case by simp
next
  case (Cons y ys)
  show ?case
  proof (cases "lt x y")
    case True
    then have "key x \<noteq> key y" using assms by blast
    then show ?thesis using True Cons by auto
  next
    case False
    then show ?thesis by simp
  qed
qed

lemma filter_foldl_insertBack:
  assumes "\<And>a b. lt a b \<Longrightarrow> key a \<noteq> key b"
  shows "filter (\<lambda>e. key e = k) (foldl (\<lambda>p x. insertBack lt x p) acc xs) =
         rev (filter (\<lambda>e. key e = k) xs) @ filter (\<lambda>e. key e = k) acc"
proof (induction xs arbitrary: acc)
  case Nil
  show ?case by simp
next
  case (Cons x xs)
  show ?case
    using Cons [of "insertBack lt x acc"]
      filter_insertBack [OF assms, where k = k and x = x and ys = acc]
    by simp
qed

lemma insertionSort_stable:
  assumes "\<And>a b. lt a b \<Longrightarrow> key a \<noteq> key b"
  shows "filter (\<lambda>e. key e = k) (insertionSort lt xs) = filter (\<lambda>e. key e = k) xs"
  using filter_foldl_insertBack [OF assms, where k = k and acc = "[]" and xs = xs]
  by (simp add: insertionSort_def rev_filter [symmetric])

lemma ratingLess_differs: "ratingLess L a b \<Longrightarrow> score L a \<noteq> score L b"
  using float_gt_irrefl by (auto simp: ratingLess_def)

lemma prefix_filter_take: "prefix (filter P (take m ys)) (filter P ys)"
  by (metis append_take_drop_id filter_append prefixI)

lemma short_keeps_ties:
  assumes "sorts_short_by_insertion n (sortSlice L)" and "length xs \<le> n"
  shows "keeps_ties L xs (take m (sortSlice L (ratingLess L) xs))"
proof -
  have "sortSlice L (ratingLess L) xs = insertionSort (ratingLess L) xs"
    using assms unfolding sorts_short_by_insertion_def by blast
  then have "filter (\<lambda>e. score L e = k) (sortSlice L (ratingLess L) xs) =
      filter (\<lambda>e. score L e = k) xs" for k
    using insertionSort_stable [of "ratingLess L" "score L", OF ratingLess_differs] by simp
  then show ?thesis
    unfolding keeps_ties_def list_all_iff
    using prefix_filter_take [of _ m "sortSlice L (ratingLess L) xs"] by metis
qed

lemma demo_mystery_numeric: "numeric_scores go_lib demo_mystery"
  by code_simp

subsection \<open>The order of a returned list\<close>

text \<open>
  Claim C3 as the code has it. When every candidate accepted for a list has a rating that
  parses to a number other than NaN, the list comes back in descending order of the scores:
  for any entry \<open>a\<close> before an entry \<open>b\<close>, \<open>score a >= score b\<close>. Entries of equal score keep
  the order in which they were found whenever the accepted candidates are few enough for
  \<open>sort.Slice\<close> to sort them by insertion (at most \<open>n\<close> of them, \<open>n\<close> being 12 in the
  current library): this covers every list of a relation search, whose limit is 5, and the
  answer of a category search that accepted at most \<open>n\<close> candidates. Of the ties of a longer
  list nothing is stated.
\<close>

theorem rank_invariant:
  assumes "sort_permutes (sortSlice L)" and "sort_orders (sortSlice L)"
    and "sorts_short_by_insertion n (sortSlice L)"
  shows "(fst (getMoviesByGenre L W genre h) = OK ms \<longrightarrow>
            fst (seedsLoop L W genre searchSeeds [] h) = accepted \<longrightarrow>
              (numeric_scores L accepted \<longrightarrow> ranked_desc L ms) \<and>
              (length accepted \<le> n \<longrightarrow> keeps_ties L accepted ms)) \<and>
         (fst (collectKeywords L W level limit kws [] seen h) = accepted' \<longrightarrow>
          fst (collect L W level kws limit seen h) = out \<longrightarrow>
              (numeric_scores L out \<longrightarrow> ranked_desc L out) \<and>
              (limit \<le> n \<longrightarrow> keeps_ties L accepted' out))"
proof -
  have a: "(numeric_scores L accepted \<longrightarrow> ranked_desc L ms) \<and>
           (length accepted \<le> n \<longrightarrow> keeps_ties L accepted ms)"
    if ok: "fst (getMoviesByGenre L W genre h) = OK ms"
      and acc: "fst (seedsLoop L W genre searchSeeds [] h) = accepted"
  proof -
    have ms: "ms = take 15 (sortSlice L (ratingLess L) accepted)"
      using getMoviesByGenre_OK(2) [OF ok] acc by simp
    have r: "ranked_desc L ms" if nn: "numeric_scores L accepted"
    proof -
      have "\<forall>e\<in>set accepted. score L e \<noteq> NaN"
        using nn by (simp add: numeric_scores_def list_all_iff)
      then show ?thesis
        using ms ranked(2) [OF assms(1,2)] by (simp add: ranked_desc_def sorted_wrt_take)
    qed
    have k: "keeps_ties L accepted ms" if len: "length accepted \<le> n"
      using short_keeps_ties [OF assms(3) len, of 15] ms by simp
    from r k show ?thesis by blast
  qed
  have b: "(numeric_scores L out \<longrightarrow> ranked_desc L out) \<and>
           (limit \<le> n \<longrightarrow> keeps_ties L accepted' out)"
    if acc: "fst (collectKeywords L W level limit kws [] seen h) = accepted'"
      and run: "fst (collect L W level kws limit seen h) = out"
  proof -
    have out: "out = sortSlice L (ratingLess L) accepted'"
      using acc run by (auto simp: collect_def split: prod.splits)
    have r: "ranked_desc L out" if nn: "numeric_scores L out"
    proof -
      have "\<forall>e\<in>set accepted'. score L e \<noteq> NaN"
        using nn out assms(1) by (simp add: numeric_scores_def list_all_iff sort_permutes_set)
      from ranked(2) [OF assms(1,2) this] out show ?thesis by (simp add: ranked_desc_def)
    qed
    have k: "keeps_ties L accepted' out" if lim: "limit \<le> n"
    proof -
      have "length accepted' \<le> limit"
        using collectKeywords_length [of "[]" limit L W level kws seen h] acc by simp
      then have "length accepted' \<le> n" using lim by simp
      from short_keeps_ties [OF assms(3) this, of "length accepted'"] out
      show ?thesis using sort_permutes_length [OF assms(1)] by simp
    qed
    from r k show ?thesis by blast
  qed
  from a b show ?thesis by blast
qed

theorem rank_invariant_witness:
  "sort_permutes (sortSlice go_lib) \<and> sort_orders (sortSlice go_lib) \<and>
   sorts_short_by_insertion 12 (sortSlice go_lib) \<and>
   fst (getMoviesByGenre go_lib demo ''mystery'' []) = OK demo_mystery \<and>
   fst (seedsLoop go_lib demo ''mystery'' searchSeeds [] []) = demo_mystery \<and>
   numeric_scores go_lib demo_mystery \<and> ranked_desc go_lib demo_mystery \<and>
   length demo_mystery \<le> 12 \<and> keeps_ties go_lib demo_mystery demo_mystery \<and>
   map (score go_lib) demo_mystery = [Fin 9.2, Fin 9.2] \<and>
   \<not> keeps_ties go_lib demo_mystery (rev demo_mystery) \<and>
   fst (collectKeywords go_lib demo ''Genre'' 5 [''Crime'', '' Drama''] [] {''tt0''} []) =
     (by_genre demo_heat) \<and>
   fst (collect go_lib demo ''Genre'' [''Crime'', '' Drama''] 5 {''tt0''} []) = by_genre demo_heat \<and>
   numeric_scores go_lib (by_genre demo_heat) \<and>
   ranked_desc go_lib (by_genre demo_heat) \<and>
   (5::nat) \<le> 12 \<and> keeps_ties go_lib (by_genre demo_heat) (by_genre demo_heat)"
proof -
  have n2: "numeric_scores go_lib (by_genre demo_heat)"
    by (simp add: numeric_scores_def demo_heat_def demo_scores table_ParseFloat_def)
  have len: "length demo_mystery \<le> 12" by (simp add: demo_mystery_def)
  have sc: "map (score go_lib) demo_mystery = [Fin 9.2, Fin 9.2]"
    by (simp add: demo_mystery_def demo_scores table_ParseFloat_def)
  have nk: "\<not> keeps_ties go_lib demo_mystery (rev demo_mystery)"
    by (simp add: keeps_ties_def demo_mystery_def genreRow_def score_def go_lib_def
        table_ParseFloat_def)
  have a: "ranked_desc go_lib demo_mystery \<and> keeps_ties go_lib demo_mystery demo_mystery"
    using rank_invariant [OF go_lib_permutes go_lib_orders go_lib_short,
        where W = demo and genre = "''mystery''" and h = "[]" and ms = demo_mystery
          and accepted = demo_mystery and n = 12]
      demo_mystery_run demo_mystery_found_run demo_mystery_numeric len
    by blast
  have b: "ranked_desc go_lib (by_genre demo_heat) \<and>
      keeps_ties go_lib (by_genre demo_heat) (by_genre demo_heat)"
    using rank_invariant [OF go_lib_permutes go_lib_orders go_lib_short,
        where W = demo and h = "[]" and level = "''Genre''" and limit = 5
          and kws = "[''Crime'', '' Drama'']" and seen = "{''tt0''}"
          and accepted' = "by_genre demo_heat" and out = "by_genre demo_heat" and n = 12]
      demo_genre_axis_run demo_genre_axis_found_run n2
    by simp
  show ?thesis
    using a b go_lib_permutes go_lib_orders go_lib_short demo_mystery_run demo_mystery_found_run
      demo_mystery_numeric len sc nk demo_genre_axis_run demo_genre_axis_found_run n2
    by simp
qed

text \<open>
  Claim C3 as stated fails on a rating the provider is free to send. The rating \<open>NaN\<close>
  is not the sentinel \<open>N/A\<close> and \<open>strconv.ParseFloat\<close> reads it without an error, as the
  float NaN; every comparison with it is false, so the insertion leaves a 9.2 behind a
  6.9. The three matches for \<open>horror\<close> come back with the scores 6.9, NaN, 9.2, which is
  not a descending order.
\<close>

theorem nan_unordered:
  "sorts_short_by_insertion 12 (sortSlice go_lib) \<and>
   fst (getMoviesByGenre go_lib demo ''horror'' []) = OK demo_horror \<and>
   map (score go_lib) demo_horror = [Fin 6.9, NaN, Fin 9.2] \<and>
   snd (ParseFloat go_lib ''NaN'') = False \<and>
   \<not> ranked_desc go_lib demo_horror"
  using go_lib_short demo_horror_run
  by (simp add: demo_horror_def table_ParseFloat_def ranked_desc_def
      genreRow_def score_def go_lib_def)

section \<open>The cap and the ranking\<close>

















lemma demo_nan_run:
  "fst (seedsLoop go_lib demo_nan ''noir'' searchSeeds [] []) = demo_nan_found"
  "fst (getMoviesByGenre go_lib demo_nan ''noir'' []) = OK (take 15 demo_nan_found)"
  "last demo_nan_found \<notin> set (take 15 demo_nan_found)"
  by code_simp+

text \<open>
  The category search needs its proviso on the ratings. Sixteen films match, the
  fifteenth rated \<open>NaN\<close> and the sixteenth 9.2, the others 8.3. No comparison with NaN
  holds, so under the insertion sort of the example library the film rated 9.2 never
  passes the one rated NaN: the cap drops it and returns films rated 8.3.
\<close>

lemma nan_hides_the_best:
  "fst (seedsLoop go_lib demo_nan ''noir'' searchSeeds [] []) = demo_nan_found \<and>
   fst (getMoviesByGenre go_lib demo_nan ''noir'' []) = OK (take 15 demo_nan_found) \<and>
   \<not> numeric_scores go_lib demo_nan_found \<and>
   last demo_nan_found \<notin> set (take 15 demo_nan_found) \<and>
   score go_lib (last demo_nan_found) = Fin 9.2 \<and>
   score go_lib (hd demo_nan_found) = Fin 8.3 \<and>
   \<not> outranked go_lib demo_nan_found (take 15 demo_nan_found)"
proof -
  have s: "score go_lib (last demo_nan_found) = Fin 9.2"
    "score go_lib (hd demo_nan_found) = Fin 8.3"
    by (simp_all add: demo_nan_found_def many_ids_def nan_rating_def genreRow_def score_def
        go_lib_def table_ParseFloat_def)
  have n: "\<not> numeric_scores go_lib demo_nan_found"
    by (simp add: numeric_scores_def demo_nan_found_def many_ids_def nan_rating_def
        genreRow_def score_def go_lib_def table_ParseFloat_def)
  have ne: "demo_nan_found \<noteq> []" by (simp add: demo_nan_found_def many_ids_def)
  have "mset demo_nan_found = mset (take 15 demo_nan_found) + mset (drop 15 demo_nan_found)"
    by (metis append_take_drop_id mset_append)
  moreover have "drop 15 demo_nan_found = [last demo_nan_found]"
    by (simp add: demo_nan_found_def many_ids_def)
  ultimately have d: "last demo_nan_found \<in>#
      mset demo_nan_found - mset (take 15 demo_nan_found)"
    by simp
  have h: "hd demo_nan_found \<in> set (take 15 demo_nan_found)"
    by (simp add: demo_nan_found_def many_ids_def)
  have "float_gt (score go_lib (last demo_nan_found)) (score go_lib (hd demo_nan_found))"
    using s by simp
  then have o: "\<not> outranked go_lib demo_nan_found (take 15 demo_nan_found)"
    unfolding outranked_def using d h by blast
  show ?thesis using demo_nan_run s n o by simp
qed

section \<open>Errors of the relation search\<close>










section \<open>A search page that fails\<close>

lemma fetchMovie_patient: "fetchMovie (patient W) ps h = fetchMovie W ps h"
  by (simp add: fetchMovie_def fetchFromOMDb_Movie_def patient_def)

lemma fetchSearchPage_patient:
  "fetchSearchPage (patient W) q p h =
     (case fetchSearchPage W q p h of
        (Inl e, h') \<Rightarrow> (Inr emptyPage, h')
      | (Inr r, h') \<Rightarrow> (Inr r, h'))"
  by (auto simp: fetchSearchPage_def fetchFromOMDb_Search_def patient_def emptyPage_def
      split: option.splits)

lemma itemsLoop_patient:
  "itemsLoop L (patient W) genre items acc h = itemsLoop L W genre items acc h"
  by (induction items arbitrary: acc h)
    (auto simp: fetchMovie_patient split: prod.splits sum.splits)

lemma seedsLoop_patient:
  "seedsLoop L (patient W) genre seeds acc h = seedsLoop L W genre seeds acc h"
proof (induction seeds arbitrary: acc h)
  case Nil
  then show ?case by simp
next
  case (Cons seed seeds)
  show ?case
  proof (cases rule: fetchSearchPage_cases [of W seed 1 h])
    case (Fail e)
    then show ?thesis using Cons
      by (simp add: fetchSearchResults_def fetchSearchPage_patient emptyPage_def)
  next
    case (Found r)
    then show ?thesis using Cons
      by (auto simp: fetchSearchResults_def fetchSearchPage_patient itemsLoop_patient
          split: prod.splits)
  qed
qed

lemma collectItems_patient:
  "collectItems (patient W) level limit ss results seen h =
   collectItems W level limit ss results seen h"
  by (induction ss arbitrary: results seen h)
    (auto simp: fetchMovie_patient Let_def split: prod.splits sum.splits)

lemma collectPages_patient:
  "collectPages (patient W) level limit kw page results seen h =
   collectPages W level limit kw page results seen h"
proof (induction W level limit kw page results seen h rule: collectPages.induct)
  case (1 W level limit kw page results seen h)
  show ?case
  proof (cases "page \<le> 3 \<and> length results < limit")
    case False
    then show ?thesis by (simp add: collectPages_stop)
  next
    case True
    show ?thesis
    proof (cases rule: fetchSearchPage_cases [of W kw page h])
      case (Fail e)
      then show ?thesis using True "1.IH"(1)
        by (simp add: collectPages_step fetchSearchPage_patient emptyPage_def)
    next
      case (Found r)
      obtain rs sn hh where ci: "collectItems W level limit (Search r) results seen
          (h @ [SearchQuery (pageParams kw page)]) = (rs, sn, hh)"
        using prod_cases3 by blast
      then show ?thesis using True Found "1.IH"(2)
        by (auto simp: collectPages_step fetchSearchPage_patient collectItems_patient
            split: prod.splits)
    qed
  qed
qed

lemma collectKeywords_patient:
  "collectKeywords L (patient W) level limit kws results seen h =
   collectKeywords L W level limit kws results seen h"
  by (induction kws arbitrary: results seen h)
    (auto simp: collectPages_patient Let_def split: prod.splits)

lemma collect_patient:
  "collect L (patient W) level kws limit seen h = collect L W level kws limit seen h"
  by (simp add: collect_def collectKeywords_patient)

text \<open>
  Claim C8 as the code has it. A page fetch that fails adds no candidate and ends
  nothing: the category search, which asks one page for each seed word, goes on with the
  next word; the relation search goes on with the next page of the same keyword. Either
  request does exactly what it would do had the page come back without items.
\<close>

theorem failed_page_is_skipped:
  "(fst (fetchSearchResults W seed h) = Inl e \<longrightarrow>
      seedsLoop L W genre (seed # seeds) acc h =
      seedsLoop L W genre seeds acc (h @ [SearchQuery (pageParams seed 1)])) \<and>
   (page \<le> 3 \<longrightarrow> length results < limit \<longrightarrow> fst (fetchSearchPage W kw page h) = Inl e \<longrightarrow>
      collectPages W level limit kw page results seen h =
      collectPages W level limit kw (page + 1) results seen
        (h @ [SearchQuery (pageParams kw page)])) \<and>
   getMoviesByGenre L (patient W) genre h = getMoviesByGenre L W genre h \<and>
   getRecommendations L (patient W) fav h = getRecommendations L W fav h"
proof -
  have a: "seedsLoop L W genre (seed # seeds) acc h =
      seedsLoop L W genre seeds acc (h @ [SearchQuery (pageParams seed 1)])"
    if "fst (fetchSearchResults W seed h) = Inl e"
    using that by (cases rule: fetchSearchPage_cases [of W seed 1 h])
      (simp_all add: fetchSearchResults_def)
  have b: "collectPages W level limit kw page results seen h =
      collectPages W level limit kw (page + 1) results seen
        (h @ [SearchQuery (pageParams kw page)])"
    if "page \<le> 3" "length results < limit" "fst (fetchSearchPage W kw page h) = Inl e"
    using that by (cases rule: fetchSearchPage_cases [of W kw page h])
      (simp_all add: collectPages_step)
  have c: "getMoviesByGenre L (patient W) genre h = getMoviesByGenre L W genre h"
    by (simp add: getMoviesByGenre_def seedsLoop_patient)
  have d: "getRecommendations L (patient W) fav h = getRecommendations L W fav h"
    by (auto simp: getRecommendations_def fetchMovie_patient collect_patient Let_def
        split: prod.splits sum.splits)
  from a b c d show ?thesis by blast
qed

lemma demo_page_fails:
  "fst (fetchSearchResults demo ''a'' []) = Inl TransportError"
  "fst (fetchSearchPage demo ''Drama'' 1 []) = Inl TransportError"
  by code_simp+

theorem failed_page_is_skipped_witness:
  "fst (fetchSearchResults demo ''a'' []) = Inl TransportError \<and>
   seedsLoop go_lib demo ''crime'' [''a'', ''love''] [] [] =
   seedsLoop go_lib demo ''crime'' [''love''] [] ([] @ [SearchQuery (pageParams ''a'' 1)]) \<and>
   (1::nat) \<le> 3 \<and> length ([]::H list) < 5 \<and>
   fst (fetchSearchPage demo ''Drama'' 1 []) = Inl TransportError \<and>
   collectPages demo ''Genre'' 5 ''Drama'' 1 [] {''tt0'', ''tt1''} [] =
   collectPages demo ''Genre'' 5 ''Drama'' (1 + 1) [] {''tt0'', ''tt1''}
     ([] @ [SearchQuery (pageParams ''Drama'' 1)])"
  using failed_page_is_skipped [where W = demo and seed = "''a''" and h = "[]"
      and e = TransportError and L = go_lib and genre = "''crime''" and seeds = "[''love'']"
      and acc = "[]" and page = 1 and results = "[]" and limit = 5 and kw = "''Drama''"
      and level = "''Genre''" and seen = "{''tt0'', ''tt1''}"]
    demo_page_fails
  by simp

text \<open>
  Claim C8 as stated fails in the relation search: page 1 of the keyword fails, and pages
  2 and 3 of the same keyword are still fetched; the result comes from page 2.
\<close>

theorem failed_page_keeps_the_term:
  "fst (fetchSearchPage demo ''Drama'' 1 []) = Inl TransportError \<and>
   fst (collectPages demo ''Genre'' 5 ''Drama'' 1 [] {''tt0'', ''tt1''} []) =
     [recRow ''tt2'' ''Ali'' ''Drama'' ''6.9'' ''Genre''] \<and>
   snd (snd (collectPages demo ''Genre'' 5 ''Drama'' 1 [] {''tt0'', ''tt1''} [])) =
     [SearchQuery (pageParams ''Drama'' 1), SearchQuery (pageParams ''Drama'' 2),
      MovieQuery [(''i'', ''tt2'')], SearchQuery (pageParams ''Drama'' 3)]"
  by code_simp

section \<open>Repeated requests\<close>

lemma fetchMovie_free:
  assumes "history_free W" and "fetchMovie W ps h = (r, h1)"
  shows "fetchMovie W ps h' = (r, h' @ [MovieQuery ps])"
proof -
  have "movie_reply W h' ps = movie_reply W h ps"
    using assms(1) unfolding history_free_def by blast
  then show ?thesis using assms(2)
    by (auto simp: fetchMovie_def fetchFromOMDb_Movie_def split: option.splits if_splits)
qed

lemma fetchSearchPage_free:
  assumes "history_free W" and "fetchSearchPage W q p h = (r, h1)"
  shows "fetchSearchPage W q p h' = (r, h' @ [SearchQuery (pageParams q p)])"
proof -
  have "search_reply W h' (pageParams q p) = search_reply W h (pageParams q p)"
    using assms(1) unfolding history_free_def by blast
  then show ?thesis using assms(2)
    by (auto simp: fetchSearchPage_def fetchFromOMDb_Search_def split: option.splits if_splits)
qed

lemma itemsLoop_free:
  assumes "history_free W"
  shows "fst (itemsLoop L W genre items acc h) = fst (itemsLoop L W genre items acc h')"
proof (induction items arbitrary: acc h h')
  case Nil
  show ?case by simp
next
  case (Cons item items)
  obtain r h1 where f: "fetchMovie W [(''i'', Item_IMDBID item)] h = (r, h1)"
    by (cases "fetchMovie W [(''i'', Item_IMDBID item)] h") auto
  note f' = fetchMovie_free [OF assms f, of h']
  show ?case
  proof (cases r)
    case (Inl e)
    then show ?thesis using f f' Cons.IH [of acc h1] by simp
  next
    case (Inr movie)
    then show ?thesis using f f' Cons.IH [of _ h1] by simp
  qed
qed

lemma seedsLoop_free:
  assumes "history_free W"
  shows "fst (seedsLoop L W genre seeds acc h) = fst (seedsLoop L W genre seeds acc h')"
proof (induction seeds arbitrary: acc h h')
  case Nil
  show ?case by simp
next
  case (Cons seed seeds)
  obtain r h1 where f: "fetchSearchPage W seed 1 h = (r, h1)"
    by (cases "fetchSearchPage W seed 1 h") auto
  note f' = fetchSearchPage_free [OF assms f, of h']
  show ?case
  proof (cases r)
    case (Inl e)
    then show ?thesis using f f' Cons.IH [of acc h1] by (simp add: fetchSearchResults_def)
  next
    case (Inr results)
    obtain a1 g1 where i1: "itemsLoop L W genre (Search results) acc h1 = (a1, g1)"
      by (cases "itemsLoop L W genre (Search results) acc h1") auto
    obtain a2 g2 where i2: "itemsLoop L W genre (Search results) acc
        (h' @ [SearchQuery (pageParams seed 1)]) = (a2, g2)"
      by (cases "itemsLoop L W genre (Search results) acc (h' @ [SearchQuery (pageParams seed 1)])") auto
    have "a1 = a2"
      using itemsLoop_free [OF assms, of L genre "Search results" acc h1
          "h' @ [SearchQuery (pageParams seed 1)]"] i1 i2 by simp
    then show ?thesis using Inr f f' i1 i2 Cons.IH [of a1 g1 g2]
      by (simp add: fetchSearchResults_def)
  qed
qed

lemma collectItems_free:
  assumes "history_free W"
  shows "outcome (collectItems W level limit ss results seen h) =
         outcome (collectItems W level limit ss results seen h')"
proof (induction ss arbitrary: results seen h h')
  case Nil
  show ?case by (simp add: outcome_def)
next
  case (Cons s ss)
  show ?case
  proof (cases "Item_IMDBID s \<in> seen")
    case True
    then show ?thesis using Cons.IH [of results seen h h'] by simp
  next
    case False
    obtain r h1 where f: "fetchMovie W [(''i'', Item_IMDBID s)] h = (r, h1)"
      by (cases "fetchMovie W [(''i'', Item_IMDBID s)] h") auto
    note f' = fetchMovie_free [OF assms f, of h']
    show ?thesis
    proof (cases r)
      case (Inl e)
      then show ?thesis using False f f' Cons.IH [of results seen h1] by simp
    next
      case (Inr movie)
      then show ?thesis using False f f' Cons.IH [of _ _ h1]
        by (simp add: Let_def outcome_def)
    qed
  qed
qed

lemma collectPages_free:
  "history_free W \<Longrightarrow>
   outcome (collectPages W level limit kw page results seen h) =
   outcome (collectPages W level limit kw page results seen h')"
proof (induction W level limit kw page results seen h arbitrary: h' rule: collectPages.induct)
  case (1 W level limit kw page results seen h)
  note hf = "1.prems"
  show ?case
  proof (cases "page \<le> 3 \<and> length results < limit")
    case False
    then show ?thesis by (simp add: collectPages_stop outcome_def)
  next
    case True
    obtain r h1 where f: "fetchSearchPage W kw page h = (r, h1)"
      by (cases "fetchSearchPage W kw page h") auto
    note f' = fetchSearchPage_free [OF hf f, of h']
    show ?thesis
    proof (cases r)
      case (Inl e)
      then show ?thesis
        using True f f' "1.IH"(1) [OF True f [symmetric] Inl hf,
            of "h' @ [SearchQuery (pageParams kw page)]"]
        by (simp add: collectPages_step)
    next
      case (Inr search)
      obtain r1 s1 g1 where c1:
        "collectItems W level limit (Search search) results seen h1 = (r1, s1, g1)"
        using prod_cases3 by blast
      obtain r2 s2 g2 where c2: "collectItems W level limit (Search search) results seen
          (h' @ [SearchQuery (pageParams kw page)]) = (r2, s2, g2)"
        using prod_cases3 by blast
      have same: "r1 = r2 \<and> s1 = s2"
        using collectItems_free [OF hf, of level limit "Search search" results seen h1
            "h' @ [SearchQuery (pageParams kw page)]"] c1 c2
        by (simp add: outcome_def)
      have "outcome (collectPages W level limit kw (page + 1) r1 s1 g1) =
            outcome (collectPages W level limit kw (page + 1) r1 s1 g2)"
        using "1.IH"(2) [OF True f [symmetric] Inr c1 [symmetric] refl hf] by simp
      then show ?thesis using True Inr f f' c1 c2 same by (simp add: collectPages_step)
    qed
  qed
qed

lemma collectKeywords_free:
  assumes "history_free W"
  shows "outcome (collectKeywords L W level limit kws results seen h) =
         outcome (collectKeywords L W level limit kws results seen h')"
proof (induction kws arbitrary: results seen h h')
  case Nil
  show ?case by (simp add: outcome_def)
next
  case (Cons kw0 kws)
  obtain r1 s1 g1 where c1:
    "collectPages W level limit (TrimSpace L kw0) 1 results seen h = (r1, s1, g1)"
    using prod_cases3 by blast
  obtain r2 s2 g2 where c2:
    "collectPages W level limit (TrimSpace L kw0) 1 results seen h' = (r2, s2, g2)"
    using prod_cases3 by blast
  have same: "r1 = r2 \<and> s1 = s2"
    using collectPages_free [OF assms, of level limit "TrimSpace L kw0" 1 results seen h h'] c1 c2
    by (simp add: outcome_def)
  show ?case
    using c1 c2 same Cons.IH [of results seen h h'] Cons.IH [of r1 s1 g1 g2]
    by (simp add: Let_def outcome_def)
qed

lemma collect_free:
  assumes "history_free W"
  shows "outcome (collect L W level kws limit seen h) = outcome (collect L W level kws limit seen h')"
  using collectKeywords_free [OF assms, of L level limit kws "[]" seen h h']
  by (auto simp: collect_def outcome_def split: prod.splits)

lemma getMoviesByGenre_free:
  assumes "history_free W"
  shows "fst (getMoviesByGenre L W genre h) = fst (getMoviesByGenre L W genre h')"
  using seedsLoop_free [OF assms, of L genre searchSeeds "[]" h h']
  by (auto simp: getMoviesByGenre_def Let_def split: prod.splits)

lemma getRecommendations_free:
  assumes "history_free W"
  shows "fst (getRecommendations L W fav h) = fst (getRecommendations L W fav h')"
proof (cases "fav = []")
  case True
  then show ?thesis by (simp add: getRecommendations_def)
next
  case False
  obtain r h1 where f: "fetchMovie W [(''t'', fav)] h = (r, h1)"
    by (cases "fetchMovie W [(''t'', fav)] h") auto
  note f' = fetchMovie_free [OF assms f, of h']
  show ?thesis
  proof (cases r)
    case (Inl e)
    then show ?thesis using False f f' by (simp add: getRecommendations_def)
  next
    case (Inr m)
    let ?g = "Split (Genre m) CHR '',''" and ?d = "Split (Director m) CHR '',''"
      and ?a = "Split (Actors m) CHR '',''"
    let ?h' = "h' @ [MovieQuery [(''t'', fav)]]"
    obtain g s1 k1 where a1: "collect L W ''Genre'' ?g 5 {IMDBID m} h1 = (g, s1, k1)"
      using prod_cases3 by blast
    obtain g' s1' k1' where b1: "collect L W ''Genre'' ?g 5 {IMDBID m} ?h' = (g', s1', k1')"
      using prod_cases3 by blast
    have e1: "g' = g \<and> s1' = s1"
      using collect_free [OF assms, of L "''Genre''" ?g 5 "{IMDBID m}" h1 ?h'] a1 b1
      by (simp add: outcome_def)
    obtain d s2 k2 where a2: "collect L W ''Director'' ?d 5 s1 k1 = (d, s2, k2)"
      using prod_cases3 by blast
    obtain d' s2' k2' where b2: "collect L W ''Director'' ?d 5 s1 k1' = (d', s2', k2')"
      using prod_cases3 by blast
    have e2: "d' = d \<and> s2' = s2"
      using collect_free [OF assms, of L "''Director''" ?d 5 s1 k1 k1'] a2 b2
      by (simp add: outcome_def)
    obtain a s3 k3 where a3: "collect L W ''Actor'' ?a 5 s2 k2 = (a, s3, k3)"
      using prod_cases3 by blast
    obtain a' s3' k3' where b3: "collect L W ''Actor'' ?a 5 s2 k2' = (a', s3', k3')"
      using prod_cases3 by blast
    have e3: "a' = a"
      using collect_free [OF assms, of L "''Actor''" ?a 5 s2 k2 k2'] a3 b3
      by (simp add: outcome_def)
    show ?thesis using False Inr f f' a1 b1 e1 a2 b2 e2 a3 b3 e3
      by (simp add: getRecommendations_def Let_def)
  qed
qed

text \<open>
  Claim C9. Over a provider that is a function of the search term and page and of the
  lookup key, a request made a second time, after all the provider calls of the first,
  gets the same answer: the same entries in the same order. This holds for the category
  search and for the relation search. (The handlers keep nothing between requests; the
  only thing that differs for the second request is what the provider has been asked.)
\<close>

theorem repeatable:
  assumes "history_free W"
  shows "fst (getMoviesByGenre L W genre (snd (getMoviesByGenre L W genre h))) =
           fst (getMoviesByGenre L W genre h) \<and>
         fst (getRecommendations L W fav (snd (getRecommendations L W fav h))) =
           fst (getRecommendations L W fav h)"
  using getMoviesByGenre_free [OF assms] getRecommendations_free [OF assms] by blast

lemma demo_history_free: "history_free demo"
  by (simp add: history_free_def demo_def)

theorem repeatable_witness:
  "history_free demo \<and>
   fst (getMoviesByGenre go_lib demo ''crime'' []) = OK demo_crime \<and>
   fst (getMoviesByGenre go_lib demo ''crime'' demo_crime_requests) = OK demo_crime \<and>
   fst (getRecommendations go_lib demo ''Heat'' []) = OK demo_heat \<and>
   fst (getRecommendations go_lib demo ''Heat'' demo_heat_requests) = OK demo_heat"
  using repeatable [OF demo_history_free, of go_lib "''crime''" "[]" "''Heat''"]
    demo_history_free demo_crime_run demo_heat_run
  by simp

section \<open>How many provider calls\<close>

lemma issues_refl: "issues h h []"
  by (simp add: issues_def)

lemma issues_trans: "issues h h1 c1 \<Longrightarrow> issues h1 h2 c2 \<Longrightarrow> issues h h2 (c1 @ c2)"
  by (simp add: issues_def)

lemma itemsLoop_calls:
  "\<exists>calls. issues h (snd (itemsLoop L W genre items acc h)) calls \<and> filter is_search calls = []"
proof (induction items arbitrary: acc h)
  case Nil
  show ?case by (simp add: issues_def)
next
  case (Cons item items)
  let ?q = "MovieQuery [(''i'', Item_IMDBID item)]"
  have step: "\<exists>acc'. itemsLoop L W genre (item # items) acc h =
      itemsLoop L W genre items acc' (h @ [?q])"
    by (cases rule: fetchMovie_cases [of W "[(''i'', Item_IMDBID item)]" h]) auto
  then obtain acc' where s: "itemsLoop L W genre (item # items) acc h =
      itemsLoop L W genre items acc' (h @ [?q])" by blast
  from Cons.IH [of "h @ [?q]" acc'] obtain calls where
    c: "issues (h @ [?q]) (snd (itemsLoop L W genre items acc' (h @ [?q]))) calls"
      "filter is_search calls = []" by blast
  have "issues h (snd (itemsLoop L W genre (item # items) acc h)) ([?q] @ calls)"
    using c(1) s by (simp add: issues_def)
  moreover have "filter is_search ([?q] @ calls) = []" using c(2) by simp
  ultimately show ?case by blast
qed

lemma seedsLoop_calls:
  "\<exists>calls. issues h (snd (seedsLoop L W genre seeds acc h)) calls \<and>
     filter is_search calls = map (\<lambda>seed. SearchQuery (pageParams seed 1)) seeds"
proof (induction seeds arbitrary: acc h)
  case Nil
  show ?case by (simp add: issues_def)
next
  case (Cons seed seeds)
  let ?q = "SearchQuery (pageParams seed 1)"
  have step: "\<exists>acc' c. seedsLoop L W genre (seed # seeds) acc h =
      seedsLoop L W genre seeds acc' (h @ [?q] @ c) \<and> filter is_search c = []"
  proof (cases rule: fetchSearchPage_cases [of W seed 1 h])
    case (Fail e)
    then have "seedsLoop L W genre (seed # seeds) acc h =
        seedsLoop L W genre seeds acc (h @ [?q] @ [])"
      by (simp add: fetchSearchResults_def)
    then show ?thesis by (metis filter.simps(1))
  next
    case (Found r)
    obtain acc' h' where il: "itemsLoop L W genre (Search r) acc (h @ [?q]) = (acc', h')"
      by (cases "itemsLoop L W genre (Search r) acc (h @ [?q])") auto
    from itemsLoop_calls [of "h @ [?q]" L W genre "Search r" acc] il obtain c where
      c: "h' = (h @ [?q]) @ c" "filter is_search c = []" by (auto simp: issues_def)
    have "seedsLoop L W genre (seed # seeds) acc h = seedsLoop L W genre seeds acc' (h @ [?q] @ c)"
      using Found il c(1) by (simp add: fetchSearchResults_def)
    then show ?thesis using c(2) by blast
  qed
  then obtain acc' c where s: "seedsLoop L W genre (seed # seeds) acc h =
      seedsLoop L W genre seeds acc' (h @ [?q] @ c)" and fc: "filter is_search c = []" by blast
  from Cons.IH [of "h @ [?q] @ c" acc'] obtain calls where
    c: "issues (h @ [?q] @ c) (snd (seedsLoop L W genre seeds acc' (h @ [?q] @ c))) calls"
      "filter is_search calls = map (\<lambda>seed. SearchQuery (pageParams seed 1)) seeds" by blast
  have "issues h (snd (seedsLoop L W genre (seed # seeds) acc h)) ([?q] @ c @ calls)"
    using c(1) s by (simp add: issues_def)
  moreover have "filter is_search ([?q] @ c @ calls) =
      map (\<lambda>seed. SearchQuery (pageParams seed 1)) (seed # seeds)"
    using c(2) fc by simp
  ultimately show ?case by blast
qed

lemma collectItems_calls:
  "\<exists>calls. issues h (snd (snd (collectItems W level limit ss results seen h))) calls \<and>
     filter is_search calls = []"
proof (induction ss arbitrary: results seen h)
  case Nil
  show ?case by (simp add: issues_def)
next
  case (Cons s ss)
  let ?q = "MovieQuery [(''i'', Item_IMDBID s)]"
  have step:
    "(\<exists>r' s'. collectItems W level limit (s # ss) results seen h =
        collectItems W level limit ss r' s' h) \<or>
     (\<exists>r' s'. collectItems W level limit (s # ss) results seen h =
        collectItems W level limit ss r' s' (h @ [?q])) \<or>
     (\<exists>r' s'. collectItems W level limit (s # ss) results seen h = (r', s', h @ [?q]))"
  proof (cases "Item_IMDBID s \<in> seen")
    case True
    then show ?thesis by auto
  next
    case False
    then show ?thesis
      by (cases rule: fetchMovie_cases [of W "[(''i'', Item_IMDBID s)]" h])
        (auto simp: Let_def)
  qed
  then consider
    (skip) r' s' where "collectItems W level limit (s # ss) results seen h =
        collectItems W level limit ss r' s' h"
    | (more) r' s' where "collectItems W level limit (s # ss) results seen h =
        collectItems W level limit ss r' s' (h @ [?q])"
    | (full) r' s' where "collectItems W level limit (s # ss) results seen h = (r', s', h @ [?q])"
    by blast
  then show ?case
  proof cases
    case skip
    then show ?thesis using Cons.IH [of h r' s'] by simp
  next
    case more
    from Cons.IH [of "h @ [?q]" r' s'] obtain calls where
      c: "issues (h @ [?q]) (snd (snd (collectItems W level limit ss r' s' (h @ [?q])))) calls"
        "filter is_search calls = []" by blast
    have "issues h (snd (snd (collectItems W level limit (s # ss) results seen h))) ([?q] @ calls)"
      using c(1) more by (simp add: issues_def)
    moreover have "filter is_search ([?q] @ calls) = []" using c(2) by simp
    ultimately show ?thesis by blast
  next
    case full
    have "issues h (snd (snd (collectItems W level limit (s # ss) results seen h))) [?q]"
      using full by (simp add: issues_def)
    moreover have "filter is_search [?q] = []" by simp
    ultimately show ?thesis by blast
  qed
qed

lemma collectPages_calls:
  "\<exists>calls. issues h (snd (snd (collectPages W level limit kw page results seen h))) calls \<and>
     length (filter is_search calls) \<le> 4 - page"
proof (induction W level limit kw page results seen h rule: collectPages.induct)
  case (1 W level limit kw page results seen h)
  let ?q = "SearchQuery (pageParams kw page)"
  show ?case
  proof (cases "page \<le> 3 \<and> length results < limit")
    case False
    then have "issues h (snd (snd (collectPages W level limit kw page results seen h))) []"
      by (simp add: collectPages_stop issues_def)
    then show ?thesis by (metis filter.simps(1) list.size(3) le0)
  next
    case True
    show ?thesis
    proof (cases rule: fetchSearchPage_cases [of W kw page h])
      case (Fail e)
      from "1.IH"(1) [OF True Fail [symmetric] refl] obtain calls where
        c: "issues (h @ [?q]) (snd (snd (collectPages W level limit kw (page + 1) results seen
              (h @ [?q])))) calls" "length (filter is_search calls) \<le> 4 - (page + 1)" by blast
      have "issues h (snd (snd (collectPages W level limit kw page results seen h))) ([?q] @ calls)"
        using c(1) True Fail by (simp add: collectPages_step issues_def)
      moreover have "length (filter is_search ([?q] @ calls)) \<le> 4 - page"
        using c(2) True by auto
      ultimately show ?thesis by blast
    next
      case (Found r)
      obtain rs sn hh where ci:
        "collectItems W level limit (Search r) results seen (h @ [?q]) = (rs, sn, hh)"
        using prod_cases3 by blast
      from collectItems_calls [of "h @ [?q]" W level limit "Search r" results seen] ci
      obtain c0 where c0: "hh = (h @ [?q]) @ c0" "filter is_search c0 = []"
        by (auto simp: issues_def)
      from "1.IH"(2) [OF True Found(1) [symmetric] refl ci [symmetric] refl] obtain calls where
        c: "issues hh (snd (snd (collectPages W level limit kw (page + 1) rs sn hh))) calls"
          "length (filter is_search calls) \<le> 4 - (page + 1)" by blast
      have "issues h (snd (snd (collectPages W level limit kw page results seen h)))
          ([?q] @ c0 @ calls)"
        using c(1) c0(1) True Found ci by (simp add: collectPages_step issues_def)
      moreover have "length (filter is_search ([?q] @ c0 @ calls)) \<le> 4 - page"
        using c(2) c0(2) True by auto
      ultimately show ?thesis by blast
    qed
  qed
qed

lemma collectKeywords_calls:
  "\<exists>calls. issues h (snd (snd (collectKeywords L W level limit kws results seen h))) calls \<and>
     length (filter is_search calls) \<le> 3 * length kws"
proof (induction kws arbitrary: results seen h)
  case Nil
  show ?case by (simp add: issues_def)
next
  case (Cons kw0 kws)
  show ?case
  proof (cases "TrimSpace L kw0 = [] \<or> TrimSpace L kw0 = ''N/A''")
    case True
    from Cons.IH [of h results seen] obtain calls where
      c: "issues h (snd (snd (collectKeywords L W level limit kws results seen h))) calls"
        "length (filter is_search calls) \<le> 3 * length kws" by blast
    then show ?thesis using True by (auto simp: Let_def)
  next
    case False
    obtain rs sn hh where cp:
      "collectPages W level limit (TrimSpace L kw0) 1 results seen h = (rs, sn, hh)"
      using prod_cases3 by blast
    from collectPages_calls [of h W level limit "TrimSpace L kw0" 1 results seen] cp
    obtain c0 where c0: "hh = h @ c0" "length (filter is_search c0) \<le> 3"
      by (auto simp: issues_def)
    show ?thesis
    proof (cases "limit \<le> length rs")
      case True
      then have "issues h (snd (snd (collectKeywords L W level limit (kw0 # kws) results seen h))) c0"
        using False cp c0(1) by (auto simp: Let_def issues_def)
      moreover have "length (filter is_search c0) \<le> 3 * length (kw0 # kws)" using c0(2) by simp
      ultimately show ?thesis by blast
    next
      case lim: False
      from Cons.IH [of hh rs sn] obtain calls where
        c: "issues hh (snd (snd (collectKeywords L W level limit kws rs sn hh))) calls"
          "length (filter is_search calls) \<le> 3 * length kws" by blast
      have "issues h (snd (snd (collectKeywords L W level limit (kw0 # kws) results seen h)))
          (c0 @ calls)"
        using False lim cp c0(1) c(1) by (auto simp: Let_def issues_def)
      moreover have "length (filter is_search (c0 @ calls)) \<le> 3 * length (kw0 # kws)"
        using c0(2) c(2) by simp
      ultimately show ?thesis by blast
    qed
  qed
qed

lemma collect_calls:
  "\<exists>calls. issues h (snd (snd (collect L W level kws limit seen h))) calls \<and>
     length (filter is_search calls) \<le> 3 * length kws"
  using collectKeywords_calls [of h L W level limit kws "[]" seen]
  by (auto simp: collect_def split: prod.splits)

lemma itemsLoop_total:
  "length (snd (itemsLoop L W genre items acc h)) = length h + length items"
proof (induction items arbitrary: acc h)
  case Nil
  show ?case by simp
next
  case (Cons item items)
  show ?case
    using Cons
    by (cases rule: fetchMovie_cases [of W "[(''i'', Item_IMDBID item)]" h]) auto
qed

lemma seedsLoop_total:
  assumes "pages_within W n"
  shows "length (snd (seedsLoop L W genre seeds acc h)) \<le> length h + length seeds * (1 + n)"
proof (induction seeds arbitrary: acc h)
  case Nil
  show ?case by simp
next
  case (Cons seed seeds)
  let ?q = "SearchQuery (pageParams seed 1)"
  show ?case
  proof (cases rule: fetchSearchPage_cases [of W seed 1 h])
    case (Fail e)
    then have "seedsLoop L W genre (seed # seeds) acc h = seedsLoop L W genre seeds acc (h @ [?q])"
      by (simp add: fetchSearchResults_def)
    then show ?thesis using Cons [of acc "h @ [?q]"] by simp
  next
    case (Found r)
    obtain acc' h' where il: "itemsLoop L W genre (Search r) acc (h @ [?q]) = (acc', h')"
      by (cases "itemsLoop L W genre (Search r) acc (h @ [?q])") auto
    have "length (Search r) \<le> n" using assms Found(2) unfolding pages_within_def by blast
    then have len: "length h' \<le> length h + 1 + n"
      using itemsLoop_total [of L W genre "Search r" acc "h @ [?q]"] il by simp
    have "seedsLoop L W genre (seed # seeds) acc h = seedsLoop L W genre seeds acc' h'"
      using Found il by (simp add: fetchSearchResults_def)
    then show ?thesis using Cons [of acc' h'] len by simp
  qed
qed

lemma collectItems_total:
  "length (snd (snd (collectItems W level limit ss results seen h))) \<le> length h + length ss"
proof (induction ss arbitrary: results seen h)
  case Nil
  show ?case by simp
next
  case (Cons s ss)
  let ?q = "MovieQuery [(''i'', Item_IMDBID s)]"
  have a: "length (snd (snd (collectItems W level limit ss r' s' h))) \<le> length h + Suc (length ss)"
    for r' s'
    using Cons [of r' s' h] by simp
  have b: "length (snd (snd (collectItems W level limit ss r' s' (h @ [?q])))) \<le>
      length h + Suc (length ss)" for r' s'
    using Cons [of r' s' "h @ [?q]"] by simp
  show ?case
    using a b
    by (cases rule: fetchMovie_cases [of W "[(''i'', Item_IMDBID s)]" h]) (auto simp: Let_def)
qed

lemma collectPages_total:
  "pages_within W n \<Longrightarrow>
   length (snd (snd (collectPages W level limit kw page results seen h))) \<le>
     length h + (4 - page) * (1 + n)"
proof (induction W level limit kw page results seen h rule: collectPages.induct)
  case (1 W level limit kw page results seen h)
  let ?q = "SearchQuery (pageParams kw page)"
  show ?case
  proof (cases "page \<le> 3 \<and> length results < limit")
    case False
    then show ?thesis by (simp add: collectPages_stop)
  next
    case True
    then have pg: "4 - page = Suc (4 - (page + 1))" by auto
    show ?thesis
    proof (cases rule: fetchSearchPage_cases [of W kw page h])
      case (Fail e)
      have "length (snd (snd (collectPages W level limit kw (page + 1) results seen (h @ [?q]))))
          \<le> length (h @ [?q]) + (4 - (page + 1)) * (1 + n)"
        using "1.IH"(1) [OF True Fail [symmetric] refl "1.prems"] .
      then show ?thesis using True Fail pg by (simp add: collectPages_step)
    next
      case (Found r)
      obtain rs sn hh where ci:
        "collectItems W level limit (Search r) results seen (h @ [?q]) = (rs, sn, hh)"
        using prod_cases3 by blast
      have "length (Search r) \<le> n" using "1.prems" Found(2) unfolding pages_within_def by blast
      then have len: "length hh \<le> length h + 1 + n"
        using collectItems_total [of W level limit "Search r" results seen "h @ [?q]"] ci by simp
      have "length (snd (snd (collectPages W level limit kw (page + 1) rs sn hh)))
          \<le> length hh + (4 - (page + 1)) * (1 + n)"
        using "1.IH"(2) [OF True Found(1) [symmetric] refl ci [symmetric] refl "1.prems"] .
      then show ?thesis using True Found ci len pg by (simp add: collectPages_step)
    qed
  qed
qed

lemma collectKeywords_total:
  assumes "pages_within W n"
  shows "length (snd (snd (collectKeywords L W level limit kws results seen h))) \<le>
     length h + length kws * (3 * (1 + n))"
proof (induction kws arbitrary: results seen h)
  case Nil
  show ?case by simp
next
  case (Cons kw0 kws)
  show ?case
  proof (cases "TrimSpace L kw0 = [] \<or> TrimSpace L kw0 = ''N/A''")
    case True
    then show ?thesis using Cons [of results seen h] by (auto simp: Let_def)
  next
    case False
    obtain rs sn hh where cp:
      "collectPages W level limit (TrimSpace L kw0) 1 results seen h = (rs, sn, hh)"
      using prod_cases3 by blast
    have len: "length hh \<le> length h + 3 * (1 + n)"
      using collectPages_total [OF assms, of level limit "TrimSpace L kw0" 1 results seen h] cp
      by simp
    show ?thesis
    proof (cases "limit \<le> length rs")
      case True
      then show ?thesis using False cp len by (auto simp: Let_def)
    next
      case lim: False
      then have "collectKeywords L W level limit (kw0 # kws) results seen h =
          collectKeywords L W level limit kws rs sn hh"
        using False cp by (auto simp: Let_def)
      then show ?thesis using Cons [of rs sn hh] len by simp
    qed
  qed
qed

lemma collect_total:
  assumes "pages_within W n"
  shows "length (snd (snd (collect L W level kws limit seen h))) \<le>
     length h + length kws * (3 * (1 + n))"
  using collectKeywords_total [OF assms, of L level limit kws "[]" seen h]
  by (auto simp: collect_def split: prod.splits)

lemma demo_pages_within: "pages_within demo 3"
  by (auto simp: pages_within_def demo_def demo_pages_def mkPage_def split: if_splits)

lemma wide_lookup:
  "fetchMovie (wide n) [(''i'', v)] h = (Inl TransportError, h @ [MovieQuery [(''i'', v)]])"
  by (simp add: fetchMovie_def fetchFromOMDb_Movie_def wide_def)

lemma wide_seed:
  "fetchMovie (wide n) [(''t'', ''Heat'')] h =
     (Inr (mkMovie ''tt0'' ''Heat'' ''Crime, Drama'' ''Mann'' ''N/A'' ''8.3''),
      h @ [MovieQuery [(''t'', ''Heat'')]])"
  by (simp add: fetchMovie_def fetchFromOMDb_Movie_def wide_def demo_movies_def mkMovie_def)

lemma wide_page:
  "fetchSearchPage (wide n) q p h =
     (Inr (mkPage (replicate n ''tt1'')), h @ [SearchQuery (pageParams q p)])"
  by (simp add: fetchSearchPage_def fetchFromOMDb_Search_def wide_def mkPage_def)

lemma wide_itemsLoop:
  "itemsLoop L (wide n) genre (replicate k (mkItem ''tt1'')) acc h =
     (acc, h @ replicate k (MovieQuery [(''i'', ''tt1'')]))"
proof (induction k arbitrary: h)
  case 0
  show ?case by simp
next
  case (Suc k)
  have i: "Item_IMDBID (mkItem ''tt1'') = ''tt1''" by (simp add: mkItem_def)
  show ?case using Suc [of "h @ [MovieQuery [(''i'', ''tt1'')]]"]
    by (simp add: wide_lookup i replicate_app_Cons_same)
qed

lemma wide_seedsLoop:
  "seedsLoop L (wide n) genre seeds acc h =
     (acc, h @ concat (map (\<lambda>seed. SearchQuery (pageParams seed 1) #
                                  replicate n (MovieQuery [(''i'', ''tt1'')])) seeds))"
proof (induction seeds arbitrary: h)
  case Nil
  show ?case by simp
next
  case (Cons seed seeds)
  show ?case
    by (simp add: fetchSearchResults_def wide_page mkPage_def wide_itemsLoop Cons)
qed

lemma wide_calls_length:
  "length (concat (map (\<lambda>x. SearchQuery (f x) # replicate n (MovieQuery q)) xs)) =
     length xs * (1 + n)"
  "length (filter is_search (concat (map (\<lambda>x. SearchQuery (f x) # replicate n (MovieQuery q)) xs))) =
     length xs"
  by (induction xs) auto

lemma wide_category_calls:
  "length (snd (getMoviesByGenre L (wide n) ''noir'' [])) = 7 + 7 * n \<and>
   length (filter is_search (snd (getMoviesByGenre L (wide n) ''noir'' []))) = 7"
proof -
  have "length searchSeeds = 7" by (simp add: searchSeeds_def)
  then show ?thesis
    by (simp add: getMoviesByGenre_def wide_seedsLoop Let_def wide_calls_length)
qed

lemma wide_collectItems:
  "''tt1'' \<notin> seen \<Longrightarrow>
   collectItems (wide n) level limit (replicate k (mkItem ''tt1'')) results seen h =
     (results, seen, h @ replicate k (MovieQuery [(''i'', ''tt1'')]))"
proof (induction k arbitrary: h)
  case 0
  show ?case by simp
next
  case (Suc k)
  have i: "Item_IMDBID (mkItem ''tt1'') = ''tt1''" by (simp add: mkItem_def)
  show ?case using Suc(1) [OF Suc(2), of "h @ [MovieQuery [(''i'', ''tt1'')]]"] Suc(2)
    by (simp add: wide_lookup i replicate_app_Cons_same)
qed

lemma wide_collectPages:
  assumes "0 < limit" and "''tt1'' \<notin> seen"
  shows "collectPages (wide n) level limit kw 1 [] seen h =
     ([], seen, h @ concat (map (\<lambda>p. SearchQuery (pageParams kw p) #
                                      replicate n (MovieQuery [(''i'', ''tt1'')])) [1, 2, 3]))"
proof -
  have p4: "collectPages (wide n) level limit kw 4 [] seen h' = ([], seen, h')" for h'
    by (simp add: collectPages_stop)
  have p3: "collectPages (wide n) level limit kw 3 [] seen h' =
      ([], seen, h' @ SearchQuery (pageParams kw 3) # replicate n (MovieQuery [(''i'', ''tt1'')]))"
    for h'
    using assms by (simp add: collectPages_step wide_page mkPage_def wide_collectItems p4)
  have p2: "collectPages (wide n) level limit kw 2 [] seen h' =
      ([], seen, h' @ SearchQuery (pageParams kw 2) # replicate n (MovieQuery [(''i'', ''tt1'')]) @
         SearchQuery (pageParams kw 3) # replicate n (MovieQuery [(''i'', ''tt1'')]))"
    for h'
    using assms by (simp add: collectPages_step wide_page mkPage_def wide_collectItems p3)
  show ?thesis
    using assms
    by (simp add: collectPages_step wide_page mkPage_def wide_collectItems p2 del: One_nat_def)
qed

lemma wide_collectKeywords:
  assumes "0 < limit" and "''tt1'' \<notin> seen"
  shows "collectKeywords L (wide n) level limit kws [] seen h =
     ([], seen,
      h @ concat (map (\<lambda>kw0. concat (map (\<lambda>p. SearchQuery (pageParams (TrimSpace L kw0) p) #
                                            replicate n (MovieQuery [(''i'', ''tt1'')])) [1, 2, 3]))
            (filter (\<lambda>kw0. TrimSpace L kw0 \<noteq> [] \<and> TrimSpace L kw0 \<noteq> ''N/A'') kws)))"
proof (induction kws arbitrary: h)
  case Nil
  show ?case by simp
next
  case (Cons kw0 kws)
  show ?case
    using assms by (simp add: Let_def wide_collectPages [OF assms] Cons del: One_nat_def)
qed

lemma demo_trims:
  "TrimSpace go_lib ''Crime'' = ''Crime''" "TrimSpace go_lib '' Drama'' = ''Drama''"
  "TrimSpace go_lib ''Mann'' = ''Mann''" "TrimSpace go_lib ''N/A'' = ''N/A''"
  by code_simp+

lemma wide_relation_calls:
  "fst (getRecommendations go_lib (wide n) ''Heat'' []) =
     OK \<lparr> favorite_movie = ''Heat'', by_genre = [], by_director = [], by_actor = [] \<rparr> \<and>
   length (snd (getRecommendations go_lib (wide n) ''Heat'' [])) = 10 + 9 * n \<and>
   length (filter is_search (snd (getRecommendations go_lib (wide n) ''Heat'' []))) = 9"
  by (simp add: getRecommendations_def wide_seed Let_def mkMovie_def collect_def
      wide_collectKeywords demo_trims insertionSort_def del: collectKeywords.simps)

text \<open>
  Claim C10 as the code has it. Every loop of the two handlers is a total function of its
  input, whatever the provider answers: each runs over a finite list of words or items, or
  over the pages 1 to 3. The requests for search pages are bounded by the code alone: a
  category search asks for exactly one search page for each of its 7 seed words, in their
  order; one keyword of a relation search costs at most 3 search pages, and a whole
  relation search at most 3 for each keyword split from the genre, director and actor
  fields of the seed. The lookups of candidates are bounded by the provider's pages only:
  each item of a fetched page costs at most one lookup. Over a provider whose pages list
  at most \<open>n\<close> items, a category search makes at most \<open>7 + 7 n\<close> calls, one keyword of a
  relation search at most \<open>3 + 3 n\<close>, and a relation search at most one call for the seed
  and \<open>3 + 3 n\<close> for each keyword.
\<close>

theorem request_bounds:
  "(genre \<noteq> [] \<longrightarrow>
      (\<exists>calls. issues h (snd (getMoviesByGenre L W genre h)) calls \<and>
         filter is_search calls = map (\<lambda>seed. SearchQuery (pageParams seed 1)) searchSeeds \<and>
         (pages_within W n \<longrightarrow> length calls \<le> 7 + 7 * n))) \<and>
   length searchSeeds = 7 \<and>
   (\<exists>calls. issues h (snd (snd (collectPages W level limit kw 1 results seen h))) calls \<and>
      length (filter is_search calls) \<le> 3 \<and>
      (pages_within W n \<longrightarrow> length calls \<le> 3 + 3 * n)) \<and>
   (fst (fetchMovie W [(''t'', fav)] h) = Inr m \<longrightarrow>
      (\<exists>calls. issues h (snd (getRecommendations L W fav h)) calls \<and>
         length (filter is_search calls) \<le>
           3 * (length (Split (Genre m) CHR '','') + length (Split (Director m) CHR '','') +
                length (Split (Actors m) CHR '','')) \<and>
         (pages_within W n \<longrightarrow>
            length calls \<le>
              1 + (3 + 3 * n) *
                (length (Split (Genre m) CHR '','') + length (Split (Director m) CHR '','') +
                 length (Split (Actors m) CHR '','')))))"
proof -
  have a: "\<exists>calls. issues h (snd (getMoviesByGenre L W genre h)) calls \<and>
         filter is_search calls = map (\<lambda>seed. SearchQuery (pageParams seed 1)) searchSeeds \<and>
         (pages_within W n \<longrightarrow> length calls \<le> 7 + 7 * n)"
    if g: "genre \<noteq> []"
  proof -
    have s: "snd (getMoviesByGenre L W genre h) = snd (seedsLoop L W genre searchSeeds [] h)"
      using g by (auto simp: getMoviesByGenre_def Let_def split: prod.splits)
    from seedsLoop_calls [of h L W genre searchSeeds "[]"] obtain calls where
      c: "issues h (snd (seedsLoop L W genre searchSeeds [] h)) calls"
        "filter is_search calls = map (\<lambda>seed. SearchQuery (pageParams seed 1)) searchSeeds"
      by blast
    have "length calls \<le> 7 + 7 * n" if pw: "pages_within W n"
      using seedsLoop_total [OF pw, of L genre searchSeeds "[]" h] c(1)
      by (simp add: issues_def searchSeeds_def)
    then show ?thesis using c s by auto
  qed
  have b: "length searchSeeds = 7" by (simp add: searchSeeds_def)
  have c: "\<exists>calls. issues h (snd (snd (collectPages W level limit kw 1 results seen h))) calls \<and>
      length (filter is_search calls) \<le> 3 \<and>
      (pages_within W n \<longrightarrow> length calls \<le> 3 + 3 * n)"
  proof -
    from collectPages_calls [of h W level limit kw 1 results seen] obtain calls where
      c: "issues h (snd (snd (collectPages W level limit kw 1 results seen h))) calls"
        "length (filter is_search calls) \<le> 3" by auto
    have "length calls \<le> 3 + 3 * n" if pw: "pages_within W n"
      using collectPages_total [OF pw, of level limit kw 1 results seen h] c(1)
      by (simp add: issues_def)
    then show ?thesis using c by auto
  qed
  have d: "\<exists>calls. issues h (snd (getRecommendations L W fav h)) calls \<and>
         length (filter is_search calls) \<le>
           3 * (length (Split (Genre m) CHR '','') + length (Split (Director m) CHR '','') +
                length (Split (Actors m) CHR '','')) \<and>
         (pages_within W n \<longrightarrow>
            length calls \<le>
              1 + (3 + 3 * n) *
                (length (Split (Genre m) CHR '','') + length (Split (Director m) CHR '','') +
                 length (Split (Actors m) CHR '','')))"
    if seed: "fst (fetchMovie W [(''t'', fav)] h) = Inr m"
  proof -
    let ?q = "MovieQuery [(''t'', fav)]"
    let ?g = "Split (Genre m) CHR '',''" and ?d = "Split (Director m) CHR '',''"
      and ?a = "Split (Actors m) CHR '',''"
    have fm: "fetchMovie W [(''t'', fav)] h = (Inr m, h @ [?q])"
      using seed by (cases rule: fetchMovie_cases [of W "[(''t'', fav)]" h]) auto
    obtain g s1 h1 where c1: "collect L W ''Genre'' ?g 5 {IMDBID m} (h @ [?q]) = (g, s1, h1)"
      using prod_cases3 by blast
    obtain dd s2 h2 where c2: "collect L W ''Director'' ?d 5 s1 h1 = (dd, s2, h2)"
      using prod_cases3 by blast
    obtain aa s3 h3 where c3: "collect L W ''Actor'' ?a 5 s2 h2 = (aa, s3, h3)"
      using prod_cases3 by blast
    from collect_calls [of "h @ [?q]" L W "''Genre''" ?g 5 "{IMDBID m}"] c1 obtain k1 where
      k1: "h1 = (h @ [?q]) @ k1" "length (filter is_search k1) \<le> 3 * length ?g"
      by (auto simp: issues_def)
    from collect_calls [of h1 L W "''Director''" ?d 5 s1] c2 obtain k2 where
      k2: "h2 = h1 @ k2" "length (filter is_search k2) \<le> 3 * length ?d"
      by (auto simp: issues_def)
    from collect_calls [of h2 L W "''Actor''" ?a 5 s2] c3 obtain k3 where
      k3: "h3 = h2 @ k3" "length (filter is_search k3) \<le> 3 * length ?a"
      by (auto simp: issues_def)
    show ?thesis
    proof (cases "fav = []")
      case True
      then have "issues h (snd (getRecommendations L W fav h)) []"
        by (simp add: getRecommendations_def issues_def)
      moreover have "length (filter is_search ([] :: request list)) \<le>
          3 * (length ?g + length ?d + length ?a)" by simp
      moreover have "length ([] :: request list) \<le> 1 + (3 + 3 * n) *
          (length ?g + length ?d + length ?a)" by simp
      ultimately show ?thesis by blast
    next
      case False
      then have "snd (getRecommendations L W fav h) = h3"
        using fm c1 c2 c3 by (simp add: getRecommendations_def Let_def)
      then have i: "issues h (snd (getRecommendations L W fav h)) ([?q] @ k1 @ k2 @ k3)"
        using k1(1) k2(1) k3(1) by (simp add: issues_def)
      have s: "length (filter is_search ([?q] @ k1 @ k2 @ k3)) \<le>
          3 * (length ?g + length ?d + length ?a)"
        using k1(2) k2(2) k3(2) by simp
      have t: "length ([?q] @ k1 @ k2 @ k3) \<le>
          1 + (3 + 3 * n) * (length ?g + length ?d + length ?a)" if pw: "pages_within W n"
      proof -
        have "length k1 \<le> length ?g * (3 * (1 + n))"
          using collect_total [OF pw, of L "''Genre''" ?g 5 "{IMDBID m}" "h @ [?q]"] c1 k1(1)
          by simp
        moreover have "length k2 \<le> length ?d * (3 * (1 + n))"
          using collect_total [OF pw, of L "''Director''" ?d 5 s1 h1] c2 k2(1) by simp
        moreover have "length k3 \<le> length ?a * (3 * (1 + n))"
          using collect_total [OF pw, of L "''Actor''" ?a 5 s2 h2] c3 k3(1) by simp
        ultimately show ?thesis by (simp add: algebra_simps)
      qed
      from i s t show ?thesis by blast
    qed
  qed
  from a b c d show ?thesis by blast
qed

theorem request_bounds_witness:
  "''crime'' \<noteq> [] \<and> pages_within demo 3 \<and>
   issues [] (snd (getMoviesByGenre go_lib demo ''crime'' [])) demo_crime_requests \<and>
   filter is_search demo_crime_requests =
     map (\<lambda>seed. SearchQuery (pageParams seed 1)) searchSeeds \<and>
   length demo_crime_requests \<le> 7 + 7 * 3 \<and>
   fst (fetchMovie demo [(''t'', ''Heat'')] []) =
     Inr (mkMovie ''tt0'' ''Heat'' ''Crime, Drama'' ''Mann'' ''N/A'' ''8.3'') \<and>
   issues [] (snd (getRecommendations go_lib demo ''Heat'' [])) demo_heat_requests \<and>
   length (filter is_search demo_heat_requests) \<le>
     3 * (length (Split ''Crime, Drama'' CHR '','') + length (Split ''Mann'' CHR '','') +
          length (Split ''N/A'' CHR '','')) \<and>
   length demo_heat_requests \<le>
     1 + (3 + 3 * 3) *
         (length (Split ''Crime, Drama'' CHR '','') + length (Split ''Mann'' CHR '','') +
          length (Split ''N/A'' CHR '',''))"
  using request_bounds [where genre = "''crime''" and h = "[]" and L = go_lib and W = demo
      and fav = "''Heat''" and n = 3
      and m = "mkMovie ''tt0'' ''Heat'' ''Crime, Drama'' ''Mann'' ''N/A'' ''8.3''"]
    demo_crime_run demo_heat_run demo_seed demo_pages_within
  by (simp add: issues_def demo_crime_requests_def demo_heat_requests_def searchSeeds_def)



text \<open>
  Claim C10 as stated fails: the number of provider calls is not bounded whatever the
  provider answers, it follows the length of the pages. Over the provider whose every
  page lists \<open>n\<close> items, the category search makes \<open>7 + 7 n\<close> calls and the relation
  search for \<open>Heat\<close> makes \<open>10 + 9 n\<close>: 77 and 100 calls with 10 items on a page, 147 and
  190 with 20, for the same 7 and 9 search pages.
\<close>

theorem lookups_follow_the_page:
  "length (snd (getMoviesByGenre go_lib (wide 10) ''noir'' [])) = 77 \<and>
   length (filter is_search (snd (getMoviesByGenre go_lib (wide 10) ''noir'' []))) = 7 \<and>
   length (snd (getMoviesByGenre go_lib (wide 20) ''noir'' [])) = 147 \<and>
   length (filter is_search (snd (getMoviesByGenre go_lib (wide 20) ''noir'' []))) = 7 \<and>
   length (snd (getRecommendations go_lib (wide 10) ''Heat'' [])) = 100 \<and>
   length (filter is_search (snd (getRecommendations go_lib (wide 10) ''Heat'' []))) = 9 \<and>
   length (snd (getRecommendations go_lib (wide 20) ''Heat'' [])) = 190 \<and>
   length (filter is_search (snd (getRecommendations go_lib (wide 20) ''Heat'' []))) = 9"
  using wide_category_calls [of go_lib 10] wide_category_calls [of go_lib 20]
    wide_relation_calls [of 10] wide_relation_calls [of 20]
  by simp

end
